theory Spec2Isabelle
  imports Main "HOL-Library.Word" "HOL-Library.Signed_Division"
begin

section \<open>Go strings, runes and slices\<close>

text \<open>
  The widget in \<^verbatim>\<open>textinput.go\<close> stores its text in a Go \<^verbatim>\<open>string\<close>, which is a
  sequence of bytes holding UTF-8, and edits it through the conversions \<^verbatim>\<open>[]rune(s)\<close>
  and \<^verbatim>\<open>string(rs)\<close>. \<^verbatim>\<open>len(s)\<close> counts bytes and \<^verbatim>\<open>s[i:]\<close> cuts at a byte offset,
  while \<^verbatim>\<open>[]rune(s)[:i]\<close> cuts at a code-point offset. The model keeps both views:
  a string is a list of bytes, and the two conversions are the UTF-8 decoder and encoder
  of the Go run time (\<^verbatim>\<open>decoderune\<close>, \<^verbatim>\<open>encoderune\<close>).  Go's \<^verbatim>\<open>int\<close> is modelled by
  \<^typ>\<open>int\<close>: the values are string lengths and pixel offsets, far from 64-bit overflow.
\<close>

type_synonym byte = "8 word"
type_synonym gostring = "byte list"
type_synonym rune = int

definition runeError :: rune where
  "runeError = 0xFFFD"

text \<open>A continuation byte lies in \<^verbatim>\<open>locb..hicb\<close>, that is \<^verbatim>\<open>0x80..0xBF\<close>.\<close>

definition contb :: "byte \<Rightarrow> bool" where
  "contb b = (0x80 \<le> unat b \<and> unat b \<le> 0xBF)"

text \<open>
  One step of the decoder: the rune at the head of the bytes and the number of bytes it
  takes.  A byte below \<^verbatim>\<open>0x80\<close> is itself; a well-formed sequence of two, three or four
  bytes gives its code point when that is neither overlong, a surrogate nor beyond
  \<^verbatim>\<open>0x10FFFF\<close>; everything else gives \<^verbatim>\<open>U+FFFD\<close> and takes one byte.  The masks and
  shifts of the run time are written as \<open>mod\<close> and multiplication
  (\<^verbatim>\<open>b & 0x1F\<close> is \<open>b mod 32\<close>, \<^verbatim>\<open><< 6\<close> is \<open>* 64\<close>, and \<^verbatim>\<open>|\<close> of
  disjoint bit fields is \<open>+\<close>).
\<close>

fun decoderune :: "gostring \<Rightarrow> rune \<times> nat" where
  "decoderune [] = (runeError, 1)"
| "decoderune (b0 # bs) =
     (let x = unat b0 in
      if x < 0x80 then (int x, 1)
      else if 0xC0 \<le> x \<and> x < 0xE0 then
        (case bs of
           b1 # _ \<Rightarrow>
             (let r = x mod 32 * 64 + unat b1 mod 64 in
              if contb b1 \<and> 0x7F < r then (int r, 2) else (runeError, 1))
         | _ \<Rightarrow> (runeError, 1))
      else if 0xE0 \<le> x \<and> x < 0xF0 then
        (case bs of
           b1 # b2 # _ \<Rightarrow>
             (let r = x mod 16 * 4096 + unat b1 mod 64 * 64 + unat b2 mod 64 in
              if contb b1 \<and> contb b2 \<and> 0x7FF < r \<and> \<not> (0xD800 \<le> r \<and> r \<le> 0xDFFF)
              then (int r, 3) else (runeError, 1))
         | _ \<Rightarrow> (runeError, 1))
      else if 0xF0 \<le> x \<and> x < 0xF8 then
        (case bs of
           b1 # b2 # b3 # _ \<Rightarrow>
             (let r = x mod 8 * 262144 + unat b1 mod 64 * 4096 + unat b2 mod 64 * 64
                      + unat b3 mod 64 in
              if contb b1 \<and> contb b2 \<and> contb b3 \<and> 0xFFFF < r \<and> r \<le> 0x10FFFF
              then (int r, 4) else (runeError, 1))
         | _ \<Rightarrow> (runeError, 1))
      else (runeError, 1))"

text \<open>\<^verbatim>\<open>[]rune(s)\<close>: decode until the bytes are used up.\<close>

function runes :: "gostring \<Rightarrow> rune list" where
  "runes s = (if s = [] then [] else fst (decoderune s) # runes (drop (snd (decoderune s)) s))"
  by pat_completeness auto
termination
proof (relation "measure length")
  show "wf (measure length)" by simp
next
  fix s :: gostring
  assume "s \<noteq> []"
  moreover have "1 \<le> snd (decoderune s)"
    by (cases s) (auto simp: Let_def split: list.splits)
  ultimately show "(drop (snd (decoderune s)) s, s) \<in> measure length" by simp
qed

declare runes.simps [simp del]

text \<open>
  \<^verbatim>\<open>string(r)\<close> for one rune: the encoder of the run time.  A negative rune, a surrogate
  or a value beyond \<^verbatim>\<open>0x10FFFF\<close> is encoded as \<^verbatim>\<open>U+FFFD\<close>.
\<close>

definition enc3 :: "int \<Rightarrow> gostring" where
  "enc3 r = [word_of_int (0xE0 + r div 4096), word_of_int (0x80 + r div 64 mod 64),
             word_of_int (0x80 + r mod 64)]"

definition encoderune :: "rune \<Rightarrow> gostring" where
  "encoderune r =
     (if 0 \<le> r \<and> r \<le> 0x7F then [word_of_int r]
      else if 0 \<le> r \<and> r \<le> 0x7FF then
        [word_of_int (0xC0 + r div 64), word_of_int (0x80 + r mod 64)]
      else if r < 0 \<or> 0x10FFFF < r \<or> (0xD800 \<le> r \<and> r \<le> 0xDFFF) then enc3 runeError
      else if r \<le> 0xFFFF then enc3 r
      else [word_of_int (0xF0 + r div 262144), word_of_int (0x80 + r div 4096 mod 64),
            word_of_int (0x80 + r div 64 mod 64), word_of_int (0x80 + r mod 64)])"

text \<open>\<^verbatim>\<open>string(rs)\<close> for a rune slice.\<close>

definition string_of_runes :: "rune list \<Rightarrow> gostring" where
  "string_of_runes rs = concat (map encoderune rs)"

text \<open>
  Slice expressions.  An index outside the operand is a run-time panic; the panic value
  records the index and the length of the operand.  For a string Go checks the index
  against the length.  For a slice it checks against the capacity, and the capacity of
  the result of \<^verbatim>\<open>[]rune(s)\<close> is left open by the language: the model takes it to be the
  length, the least value allowed, so that every index beyond the runes of the text is
  reported (with a larger capacity Go would hand out zero runes from beyond the text
  instead of stopping).
\<close>

datatype go_panic = SliceBounds int nat

definition slice_to :: "'a list \<Rightarrow> int \<Rightarrow> go_panic + 'a list" where
  "slice_to xs i =
     (if 0 \<le> i \<and> i \<le> int (length xs) then Inr (take (nat i) xs)
      else Inl (SliceBounds i (length xs)))"

definition slice_from :: "'a list \<Rightarrow> int \<Rightarrow> go_panic + 'a list" where
  "slice_from xs i =
     (if 0 \<le> i \<and> i \<le> int (length xs) then Inr (drop (nat i) xs)
      else Inl (SliceBounds i (length xs)))"

section \<open>Edit operations\<close>

text \<open>
  \<^verbatim>\<open>return string([]rune(s)[:pos]) + string(r) + string([]rune(s[pos:]))\<close>:
  the head is cut at rune \<open>pos\<close>, the tail at byte \<open>pos\<close>.
\<close>

definition insertChar :: "gostring \<Rightarrow> rune \<Rightarrow> int \<Rightarrow> go_panic + gostring" where
  "insertChar s r pos =
     (case slice_to (runes s) pos of
        Inl e \<Rightarrow> Inl e
      | Inr front \<Rightarrow>
          (case slice_from s pos of
             Inl e \<Rightarrow> Inl e
           | Inr back \<Rightarrow>
               Inr (string_of_runes front @ encoderune r @ string_of_runes (runes back))))"

text \<open>\<^verbatim>\<open>return string([]rune(s)[:pos]) + string([]rune(s)[pos+1:])\<close>\<close>

definition removeChar :: "gostring \<Rightarrow> int \<Rightarrow> go_panic + gostring" where
  "removeChar s pos =
     (case slice_to (runes s) pos of
        Inl e \<Rightarrow> Inl e
      | Inr front \<Rightarrow>
          (case slice_from (runes s) (pos + 1) of
             Inl e \<Rightarrow> Inl e
           | Inr back \<Rightarrow> Inr (string_of_runes front @ string_of_runes back)))"

section \<open>Geometry and font metrics\<close>

text \<open>
  \<^verbatim>\<open>image.Point\<close> and \<^verbatim>\<open>image.Rectangle\<close> of the Go library, with the two
  methods the widget calls: \<^verbatim>\<open>p.In(r)\<close> (the rectangle holds its \<^verbatim>\<open>Min\<close> edge and
  not its \<^verbatim>\<open>Max\<close> edge) and \<^verbatim>\<open>r.Add(p)\<close> (translation).
\<close>

record Point =
  X :: int
  Y :: int

record Rectangle =
  rMin :: Point
  rMax :: Point

definition Point_In :: "Point \<Rightarrow> Rectangle \<Rightarrow> bool" where
  "Point_In p r = (X (rMin r) \<le> X p \<and> X p < X (rMax r) \<and> Y (rMin r) \<le> Y p \<and> Y p < Y (rMax r))"

definition Rectangle_Add :: "Rectangle \<Rightarrow> Point \<Rightarrow> Rectangle" where
  "Rectangle_Add r p =
     \<lparr>rMin = \<lparr>X = X (rMin r) + X p, Y = Y (rMin r) + Y p\<rparr>,
      rMax = \<lparr>X = X (rMax r) + X p, Y = Y (rMax r) + Y p\<rparr>\<rparr>"

record Insets =
  Top :: int
  Left :: int
  Right :: int
  Bottom :: int

text \<open>
  Modelled from the spec: \<^verbatim>\<open>Insets.Apply\<close> is declared in a file of the package that
  is not among the sources.  The spec calls its result the padded content rectangle:
  the rectangle moved inwards by the inset of each side.
\<close>

definition Insets_Apply :: "Insets \<Rightarrow> Rectangle \<Rightarrow> Rectangle" where
  "Insets_Apply i r =
     \<lparr>rMin = \<lparr>X = X (rMin r) + Left i, Y = Y (rMin r) + Top i\<rparr>,
      rMax = \<lparr>X = X (rMax r) - Right i, Y = Y (rMax r) - Bottom i\<rparr>\<rparr>"

text \<open>
  A \<^verbatim>\<open>font.Face\<close> enters the widget only through \<^verbatim>\<open>fontAdvance\<close>, which measures a
  string with \<^verbatim>\<open>font.BoundString\<close> and rounds the advance to whole pixels.  The
  measuring belongs to the font library, so a face is taken as the function from a
  string to its rounded advance.
\<close>

type_synonym Face = "gostring \<Rightarrow> int"

definition fontAdvance :: "gostring \<Rightarrow> Face \<Rightarrow> int" where
  "fontAdvance s f = f s"

section \<open>From a pixel offset to an index\<close>

text \<open>
  The loop of \<^verbatim>\<open>fontStringIndex\<close>.  It leaves either through \<^verbatim>\<open>return p\<close> (the flag
  is \<open>True\<close>) or through \<^verbatim>\<open>break\<close> (the flag is \<open>False\<close>).  Go's \<^verbatim>\<open>/\<close> truncates
  towards zero, which is \<open>sdiv\<close>.
\<close>

function fontStringIndex_loop ::
  "gostring \<Rightarrow> Face \<Rightarrow> int \<Rightarrow> int \<Rightarrow> int \<Rightarrow> go_panic + (bool \<times> int)" where
  "fontStringIndex_loop s f x start end' =
     (let p = start + (end' - start) sdiv 2 in
      case slice_to (runes s) p of
        Inl e \<Rightarrow> Inl e
      | Inr sub \<Rightarrow>
          (let a = fontAdvance (string_of_runes sub) f in
           if x - a = 0 then Inr (True, p)
           else if x - a > 0 then
             (if p = start then Inr (False, p) else fontStringIndex_loop s f x p end')
           else
             (if end' = p then Inr (False, p) else fontStringIndex_loop s f x start p)))"
  by pat_completeness auto
termination
proof (relation "measure (\<lambda>(s, f, x, start, end'). nat \<bar>end' - start\<bar>)")
  show "wf (measure (\<lambda>(s, f, x, start, end'). nat \<bar>end' - start\<bar>))" by simp
next
  fix start end' p :: int
  assume p: "p = start + (end' - start) sdiv 2" and ne: "p \<noteq> start"
  show "((s, f, x, p, end'), (s, f, x, start, end'))
        \<in> measure (\<lambda>(s, f, x, start, end'). nat \<bar>end' - start\<bar>)" for s :: gostring and f :: Face and x :: int
    using p ne by (auto simp: signed_divide_int_def sgn_if split: if_splits)
next
  fix start end' p :: int
  assume p: "p = start + (end' - start) sdiv 2" and ne: "end' \<noteq> p"
  show "((s, f, x, start, p), (s, f, x, start, end'))
        \<in> measure (\<lambda>(s, f, x, start, end'). nat \<bar>end' - start\<bar>)" for s :: gostring and f :: Face and x :: int
    using p ne by (auto simp: signed_divide_int_def sgn_if split: if_splits)
qed

declare fontStringIndex_loop.simps [simp del]

text \<open>
  \<^verbatim>\<open>fontStringIndex\<close>: the search runs between \<open>0\<close> and \<^verbatim>\<open>len(s)\<close>, the number of
  bytes; after a \<^verbatim>\<open>break\<close> the boundary \<open>p + 1\<close> is taken when it is strictly
  closer to \<open>x\<close> than \<open>p\<close>.  The two distances are compared as \<^verbatim>\<open>float64\<close> in the
  source; for pixel offsets (below \<open>2 ^ 53\<close>) the conversion is exact, and the model
  compares the integers.
\<close>

definition fontStringIndex :: "gostring \<Rightarrow> Face \<Rightarrow> int \<Rightarrow> go_panic + int" where
  "fontStringIndex s f x =
     (case fontStringIndex_loop s f x 0 (int (length s)) of
        Inl e \<Rightarrow> Inl e
      | Inr (True, p) \<Rightarrow> Inr p
      | Inr (False, p) \<Rightarrow>
          (if length s > 0 then
             (case slice_to (runes s) p of
                Inl e \<Rightarrow> Inl e
              | Inr sub1 \<Rightarrow>
                  (let a1 = fontAdvance (string_of_runes sub1) f in
                   case slice_to (runes s) (p + 1) of
                     Inl e \<Rightarrow> Inl e
                   | Inr sub2 \<Rightarrow>
                       (let a2 = fontAdvance (string_of_runes sub2) f in
                        if \<bar>x - a2\<bar> < \<bar>x - a1\<bar> then Inr (p + 1) else Inr p)))
           else Inr p))"

section \<open>The widget\<close>

text \<open>
  The control commands, the keys bound to them and the map \<^verbatim>\<open>textInputKeyToCommand\<close>.
  Of \<^verbatim>\<open>ebiten.Key\<close> only the six keys of the map are read by the widget.
\<close>

datatype textInputControlCommand =
  textInputGoLeft | textInputGoRight | textInputGoStart | textInputGoEnd
  | textInputBackspace | textInputDelete

datatype Key = KeyLeft | KeyRight | KeyHome | KeyEnd | KeyBackspace | KeyDelete

fun textInputKeyToCommand :: "Key \<Rightarrow> textInputControlCommand" where
  "textInputKeyToCommand KeyLeft = textInputGoLeft"
| "textInputKeyToCommand KeyRight = textInputGoRight"
| "textInputKeyToCommand KeyHome = textInputGoStart"
| "textInputKeyToCommand KeyEnd = textInputGoEnd"
| "textInputKeyToCommand KeyBackspace = textInputBackspace"
| "textInputKeyToCommand KeyDelete = textInputDelete"

text \<open>
  A \<^verbatim>\<open>textInputState\<close> is a closure; the datatype holds what each closure captures.
  \<open>CommandState cmd key delay timer\<close> is \<^verbatim>\<open>commandState(cmd, key, delay, timer, expired)\<close>:
  \<open>timer\<close> is \<open>None\<close> for \<^verbatim>\<open>nil\<close>, and \<open>Some d\<close> for the timer that
  \<^verbatim>\<open>time.AfterFunc(delay, ...)\<close> started, \<open>d\<close> being the instant it is due (the instant
  of the call plus \<open>delay\<close>).
\<close>

datatype textInputState =
  IdleState bool
  | CharInputState rune
  | CommandState textInputControlCommand Key int "int option"

text \<open>
  The fields of \<^verbatim>\<open>TextInput\<close> that the input handling and the scroll computation read
  or write.  \<open>widget_Rect\<close> and \<open>widget_Disabled\<close> are \<^verbatim>\<open>t.widget.Rect\<close> and
  \<^verbatim>\<open>t.widget.Disabled\<close>, \<open>caret_Width\<close> is \<^verbatim>\<open>t.caret.Width\<close>.  Durations are in
  nanoseconds, as \<^verbatim>\<open>time.Duration\<close> is.
\<close>

record TextInput =
  InputText :: gostring
  padding :: Insets
  face :: Face
  repeatDelay :: int
  repeatInterval :: int
  validationFunc :: "(gostring \<Rightarrow> bool) option"
  widget_Rect :: Rectangle
  widget_Disabled :: bool
  caret_Width :: int
  cursorPosition :: int
  state :: textInputState
  scrollOffset :: int

definition Millisecond :: int where
  "Millisecond = 1000000"

text \<open>
  \<^verbatim>\<open>NewTextInput\<close> with the values its options set (padding, face, repeat interval,
  validation); an option that is not given leaves the Go zero value, and the repeat
  interval its default.  The rectangle, the disabled flag and the caret are set by the
  widget shell.
\<close>

definition NewTextInput ::
  "Insets \<Rightarrow> Face \<Rightarrow> int option \<Rightarrow> (gostring \<Rightarrow> bool) option \<Rightarrow> Rectangle \<Rightarrow> bool \<Rightarrow> int
   \<Rightarrow> TextInput" where
  "NewTextInput pad f interval validation rect disabled caretWidth =
     \<lparr>InputText = [], padding = pad, face = f,
      repeatDelay = 300 * Millisecond,
      repeatInterval = (case interval of None \<Rightarrow> 35 * Millisecond | Some i \<Rightarrow> i),
      validationFunc = validation,
      widget_Rect = rect, widget_Disabled = disabled, caret_Width = caretWidth,
      cursorPosition = 0, state = IdleState True, scrollOffset = 0\<rparr>"

text \<open>\<^verbatim>\<open>len(t.InputText)\<close>: the number of bytes.\<close>

definition len :: "gostring \<Rightarrow> int" where
  "len s = int (length s)"

text \<open>
  The edit and cursor operations.  Each also calls \<^verbatim>\<open>t.caret.ResetBlinking()\<close>, which
  acts on the caret's own blink timer and on nothing in \<^verbatim>\<open>TextInput\<close>.
\<close>

definition doInsert :: "rune \<Rightarrow> TextInput \<Rightarrow> go_panic + TextInput" where
  "doInsert c t =
     (case insertChar (InputText t) c (cursorPosition t) of
        Inl e \<Rightarrow> Inl e
      | Inr s \<Rightarrow>
          (case validationFunc t of
             None \<Rightarrow> Inr (t\<lparr>InputText := s, cursorPosition := cursorPosition t + 1\<rparr>)
           | Some v \<Rightarrow>
               if \<not> v s then Inr t
               else Inr (t\<lparr>InputText := s, cursorPosition := cursorPosition t + 1\<rparr>)))"

definition doGoLeft :: "TextInput \<Rightarrow> go_panic + TextInput" where
  "doGoLeft t =
     (if cursorPosition t > 0 then Inr (t\<lparr>cursorPosition := cursorPosition t - 1\<rparr>) else Inr t)"

definition doGoRight :: "TextInput \<Rightarrow> go_panic + TextInput" where
  "doGoRight t =
     (if cursorPosition t < len (InputText t)
      then Inr (t\<lparr>cursorPosition := cursorPosition t + 1\<rparr>) else Inr t)"

definition doGoStart :: "TextInput \<Rightarrow> go_panic + TextInput" where
  "doGoStart t = Inr (t\<lparr>cursorPosition := 0\<rparr>)"

definition doGoEnd :: "TextInput \<Rightarrow> go_panic + TextInput" where
  "doGoEnd t = Inr (t\<lparr>cursorPosition := len (InputText t)\<rparr>)"

definition doGoXY :: "int \<Rightarrow> int \<Rightarrow> TextInput \<Rightarrow> go_panic + TextInput" where
  "doGoXY x y t =
     (if Point_In \<lparr>X = x, Y = y\<rparr> (widget_Rect t) then
        (let tr = Insets_Apply (padding t) (widget_Rect t);
             x1 = (if x < X (rMin tr) then X (rMin tr) else x);
             x2 = (if x1 > X (rMax tr) then X (rMax tr) else x1)
         in case fontStringIndex (InputText t) (face t) (x2 - scrollOffset t - X (rMin tr)) of
              Inl e \<Rightarrow> Inl e
            | Inr i \<Rightarrow> Inr (t\<lparr>cursorPosition := i\<rparr>))
      else Inr t)"

definition doBackspace :: "TextInput \<Rightarrow> go_panic + TextInput" where
  "doBackspace t =
     (if cursorPosition t > 0 then
        (case removeChar (InputText t) (cursorPosition t - 1) of
           Inl e \<Rightarrow> Inl e
         | Inr s \<Rightarrow> Inr (t\<lparr>InputText := s, cursorPosition := cursorPosition t - 1\<rparr>))
      else Inr t)"

definition doDelete :: "TextInput \<Rightarrow> go_panic + TextInput" where
  "doDelete t =
     (if cursorPosition t < len (InputText t) then
        (case removeChar (InputText t) (cursorPosition t) of
           Inl e \<Rightarrow> Inl e
         | Inr s \<Rightarrow> Inr (t\<lparr>InputText := s\<rparr>))
      else Inr t)"

text \<open>The map \<^verbatim>\<open>t.commandToFunc\<close> that \<^verbatim>\<open>NewTextInput\<close> fills.\<close>

fun commandToFunc :: "textInputControlCommand \<Rightarrow> TextInput \<Rightarrow> go_panic + TextInput" where
  "commandToFunc textInputGoLeft = doGoLeft"
| "commandToFunc textInputGoRight = doGoRight"
| "commandToFunc textInputGoStart = doGoStart"
| "commandToFunc textInputGoEnd = doGoEnd"
| "commandToFunc textInputBackspace = doBackspace"
| "commandToFunc textInputDelete = doDelete"

section \<open>The input state machine\<close>

text \<open>
  What one call of \<^verbatim>\<open>Render\<close> reads from outside the widget, the same for every state
  that runs in the call:
  \<^item> \<open>InputChars\<close>, \<open>KeyPressed\<close>, \<open>MouseButtonJustPressedLayer\<close> (for the left
    button and the widget's layer) and \<open>CursorPosition\<close> of package \<^verbatim>\<open>input\<close>;
  \<^item> \<open>rangeOrder\<close>, the order in which \<^verbatim>\<open>range textInputKeyToCommand\<close> visits the
    keys of the map in this call: Go leaves the order of a map iteration open, so it is
    an input, some arrangement of the six keys;
  \<^item> \<open>now\<close>, the wall-clock instant of the call, and \<open>timerFired\<close>, whether the
    function that \<^verbatim>\<open>time.AfterFunc\<close> was given for the pending timer has run.
\<close>

record input_sample =
  InputChars :: "rune list"
  KeyPressed :: "Key \<Rightarrow> bool"
  MouseButtonJustPressedLayer :: bool
  CursorPosition :: "int \<times> int"
  rangeOrder :: "Key list"
  now :: int
  timerFired :: bool

text \<open>
  \<^verbatim>\<open>expired.Load()\<close>: the flag is set by the timer's function, which
  \<^verbatim>\<open>time.AfterFunc\<close> runs once the delay has passed and never before.
\<close>

definition expired_Load :: "input_sample \<Rightarrow> int \<Rightarrow> bool" where
  "expired_Load inp due = (timerFired inp \<and> due \<le> now inp)"

text \<open>
  What a state did to the text when it ran: the command it called through
  \<^verbatim>\<open>commandToFunc\<close>, the rune it inserted, or the click it placed the cursor by.  The
  states return these beside their Go results, so that a theorem can say which
  operations one call of \<^verbatim>\<open>Render\<close> performed.
\<close>

datatype action = Command textInputControlCommand | Insert rune | Click int int

type_synonym state_result = "go_panic + (TextInput \<times> textInputState \<times> bool \<times> action list)"

definition idleState :: "bool \<Rightarrow> input_sample \<Rightarrow> TextInput \<Rightarrow> state_result" where
  "idleState newKeyOrCommand inp t =
     (let delay = (if newKeyOrCommand then repeatDelay t else repeatInterval t) in
      case InputChars inp of
        c # _ \<Rightarrow> Inr (t, CharInputState c, True, [])
      | [] \<Rightarrow>
          (case find (KeyPressed inp) (rangeOrder inp) of
             Some key \<Rightarrow>
               Inr (t, CommandState (textInputKeyToCommand key) key delay None, True, [])
           | None \<Rightarrow>
               if MouseButtonJustPressedLayer inp then
                 (case doGoXY (fst (CursorPosition inp)) (snd (CursorPosition inp)) t of
                    Inl e \<Rightarrow> Inl e
                  | Inr t' \<Rightarrow>
                      Inr (t', IdleState True, False,
                           [Click (fst (CursorPosition inp)) (snd (CursorPosition inp))]))
               else Inr (t, IdleState True, False, [])))"

definition charInputState :: "rune \<Rightarrow> input_sample \<Rightarrow> TextInput \<Rightarrow> state_result" where
  "charInputState c inp t =
     (if \<not> widget_Disabled t then
        (case doInsert c t of
           Inl e \<Rightarrow> Inl e
         | Inr t' \<Rightarrow> Inr (t', IdleState True, False, [Insert c]))
      else Inr (t, IdleState True, False, []))"

definition commandState ::
  "textInputControlCommand \<Rightarrow> Key \<Rightarrow> int \<Rightarrow> int option \<Rightarrow> input_sample \<Rightarrow> TextInput
   \<Rightarrow> state_result" where
  "commandState cmd key delay timer inp t =
     (if \<not> KeyPressed inp key then Inr (t, IdleState True, True, [])
      else
        (case timer of
           Some due \<Rightarrow>
             if expired_Load inp due then Inr (t, IdleState False, True, [])
             else Inr (t, CommandState cmd key delay (Some due), False, [])
         | None \<Rightarrow>
             (case commandToFunc cmd t of
                Inl e \<Rightarrow> Inl e
              | Inr t' \<Rightarrow>
                  Inr (t', CommandState cmd key delay (Some (now inp + delay)), False,
                       [Command cmd]))))"

text \<open>Calling the closure \<^verbatim>\<open>t.state()\<close>.\<close>

fun call_state :: "textInputState \<Rightarrow> input_sample \<Rightarrow> TextInput \<Rightarrow> state_result" where
  "call_state (IdleState b) = idleState b"
| "call_state (CharInputState c) = charInputState c"
| "call_state (CommandState cmd key delay timer) = commandState cmd key delay timer"

text \<open>
  The loop of \<^verbatim>\<open>Render\<close>: \<^verbatim>\<open>for { t.state, rerun = t.state(); if !rerun { break } }\<close>.
  The result also lists what the states did, in order.  The measure below counts how
  many further states can run in the same call.
\<close>

fun state_rank :: "input_sample \<Rightarrow> textInputState \<Rightarrow> nat" where
  "state_rank inp (IdleState b) = 2"
| "state_rank inp (CharInputState c) = 0"
| "state_rank inp (CommandState cmd key delay (Some due)) = 3"
| "state_rank inp (CommandState cmd key delay None) = (if KeyPressed inp key then 0 else 3)"

function run_states :: "input_sample \<Rightarrow> TextInput \<Rightarrow> go_panic + (TextInput \<times> action list)" where
  "run_states inp t =
     (case call_state (state t) inp t of
        Inl e \<Rightarrow> Inl e
      | Inr (t', st', rerun, acts) \<Rightarrow>
          if rerun then
            (case run_states inp (t'\<lparr>state := st'\<rparr>) of
               Inl e \<Rightarrow> Inl e
             | Inr (t'', acts') \<Rightarrow> Inr (t'', acts @ acts'))
          else Inr (t'\<lparr>state := st'\<rparr>, acts))"
  by pat_completeness auto
termination
proof (relation "measure (\<lambda>(inp, t). state_rank inp (state t))")
  show "wf (measure (\<lambda>(inp, t). state_rank inp (state t)))" by simp
next
  fix inp t x t' y st' z rerun acts
  assume "call_state (state t) inp t = Inr x" "(t', y) = x" "(st', z) = y" "(rerun, acts) = z" "rerun"
  then have call: "call_state (state t) inp t = Inr (t', st', True, acts)" by auto
  have "state_rank inp st' < state_rank inp (state t)"
  proof (cases "state t")
    case (IdleState b)
    with call show ?thesis
      by (auto simp: idleState_def Let_def find_Some_iff
          split: list.splits option.splits if_splits sum.splits)
  next
    case (CharInputState c)
    with call show ?thesis
      by (auto simp: charInputState_def split: if_splits sum.splits)
  next
    case (CommandState cmd key delay timer)
    with call show ?thesis
      by (cases timer) (auto simp: commandState_def split: if_splits sum.splits)
  qed
  then show "((inp, t'\<lparr>state := st'\<rparr>), (inp, t)) \<in> measure (\<lambda>(inp, t). state_rank inp (state t))"
    by simp
qed

declare run_states.simps [simp del]

section \<open>Scrolling and rendering\<close>

text \<open>
  The part of \<^verbatim>\<open>drawTextAndCaret\<close> that computes positions: the caret's offset
  \<open>cx\<close> in the text, the two corrections of \<^verbatim>\<open>t.scrollOffset\<close>, and the rectangles
  handed to \<^verbatim>\<open>t.text.SetLocation\<close> and \<^verbatim>\<open>t.caret.SetLocation\<close>, which are returned
  beside the widget.  \<^verbatim>\<open>t.InputText[:t.cursorPosition]\<close> cuts the string at a byte
  offset.  The drawing itself (buffers, mask, compositing) writes pixels only.
\<close>

definition drawTextAndCaret :: "TextInput \<Rightarrow> go_panic + (TextInput \<times> Rectangle \<times> Rectangle)" where
  "drawTextAndCaret t =
     (case slice_to (InputText t) (cursorPosition t) of
        Inl e \<Rightarrow> Inl e
      | Inr pre \<Rightarrow>
          (let rect = widget_Rect t;
               cx = fontAdvance pre (face t);
               tr = Rectangle_Add rect \<lparr>X = Left (padding t), Y = Top (padding t)\<rparr>;
               dx = X (rMin tr) + scrollOffset t + cx + caret_Width t + Right (padding t)
                    - X (rMax rect);
               so1 = (if dx > 0 then scrollOffset t - dx else scrollOffset t);
               dx' = X (rMin tr) + so1 + cx - Left (padding t) - X (rMin rect);
               so2 = (if dx' < 0 then so1 - dx' else so1);
               textLoc = Rectangle_Add tr \<lparr>X = so2, Y = 0\<rparr>;
               caretLoc = Rectangle_Add textLoc \<lparr>X = cx, Y = 0\<rparr>
           in Inr (t\<lparr>scrollOffset := so2\<rparr>, textLoc, caretLoc)))"

text \<open>
  \<^verbatim>\<open>Render\<close>: clamp the cursor to \<^verbatim>\<open>len(t.InputText)\<close>, run the states, draw.  The
  result is the widget, what the states did, and the locations of text and caret.
\<close>

definition Render ::
  "input_sample \<Rightarrow> TextInput \<Rightarrow> go_panic + (TextInput \<times> action list \<times> Rectangle \<times> Rectangle)" where
  "Render inp t =
     (let t1 = (if cursorPosition t > len (InputText t)
                then t\<lparr>cursorPosition := len (InputText t)\<rparr> else t) in
      case run_states inp t1 of
        Inl e \<Rightarrow> Inl e
      | Inr (t2, acts) \<Rightarrow>
          (case drawTextAndCaret t2 of
             Inl e \<Rightarrow> Inl e
           | Inr (t3, textLoc, caretLoc) \<Rightarrow> Inr (t3, acts, textLoc, caretLoc)))"

text \<open>
  The game loop calls \<^verbatim>\<open>Render\<close> once per frame; \<open>Render_all\<close> runs the frames of a
  list of input samples and collects what each frame did.
\<close>

fun Render_all :: "input_sample list \<Rightarrow> TextInput \<Rightarrow> go_panic + (TextInput \<times> action list list)" where
  "Render_all [] t = Inr (t, [])"
| "Render_all (inp # inps) t =
     (case Render inp t of
        Inl e \<Rightarrow> Inl e
      | Inr (t', acts, locs) \<Rightarrow>
          (case Render_all inps t' of
             Inl e \<Rightarrow> Inl e
           | Inr (t'', log) \<Rightarrow> Inr (t'', acts # log)))"

section \<open>Notions used in the statements\<close>

text \<open>
  What \<^verbatim>\<open>[]rune(string(r))\<close> makes of a rune: a value that is no code point comes
  back as \<^verbatim>\<open>U+FFFD\<close>.
\<close>

definition validRune :: "rune \<Rightarrow> rune" where
  "validRune r =
     (if r < 0 \<or> 0x10FFFF < r \<or> (0xD800 \<le> r \<and> r \<le> 0xDFFF) then runeError else r)"

text \<open>A text of single-byte code points: every byte is below \<^verbatim>\<open>0x80\<close>.\<close>

definition ascii :: "gostring \<Rightarrow> bool" where
  "ascii s = list_all (\<lambda>b. unat b < 0x80) s"

text \<open>The first statement of \<^verbatim>\<open>Render\<close>: the cursor is brought back to \<^verbatim>\<open>len(t.InputText)\<close>.\<close>

definition clamp_cursor :: "TextInput \<Rightarrow> TextInput" where
  "clamp_cursor t =
     (if cursorPosition t > len (InputText t) then t\<lparr>cursorPosition := len (InputText t)\<rparr> else t)"

text \<open>
  The cursor lies within the bytes of the text; and two widgets agree in what the scroll
  computation reads besides text and cursor.
\<close>

definition cursor_in_text :: "TextInput \<Rightarrow> bool" where
  "cursor_in_text t = (0 \<le> cursorPosition t \<and> cursorPosition t \<le> len (InputText t))"

definition same_layout :: "TextInput \<Rightarrow> TextInput \<Rightarrow> bool" where
  "same_layout t t' =
     (scrollOffset t' = scrollOffset t \<and> widget_Rect t' = widget_Rect t \<and> padding t' = padding t
      \<and> caret_Width t' = caret_Width t \<and> face t' = face t)"

section \<open>Sample inputs\<close>

text \<open>
  A face in which every code point advances by \<open>w\<close> pixels; a widget without padding
  in the rectangle from \<open>(0, 0)\<close> to \<open>(100, 20)\<close>, with a caret two pixels wide, holding
  a given text and cursor; and an input sample in which a given list of keys is held and
  nothing else happens.
\<close>

definition fixedAdvance :: "int \<Rightarrow> Face" where
  "fixedAdvance w s = w * int (length (runes s))"

definition plain_widget :: "gostring \<Rightarrow> int \<Rightarrow> TextInput" where
  "plain_widget s c =
     (NewTextInput \<lparr>Top = 0, Left = 0, Right = 0, Bottom = 0\<rparr> (fixedAdvance 10) None None
        \<lparr>rMin = \<lparr>X = 0, Y = 0\<rparr>, rMax = \<lparr>X = 100, Y = 20\<rparr>\<rparr> False 2)
     \<lparr>InputText := s, cursorPosition := c\<rparr>"

definition keys_held :: "Key list \<Rightarrow> Key list \<Rightarrow> int \<Rightarrow> input_sample" where
  "keys_held keys order' time =
     \<lparr>InputChars = [], KeyPressed = (\<lambda>k. k \<in> set keys), MouseButtonJustPressedLayer = False,
      CursorPosition = (0, 0), rangeOrder = order', now = time, timerFired = True\<rparr>"

text \<open>An input sample in which the given characters were typed and no key is held.\<close>

definition chars_typed :: "rune list \<Rightarrow> int \<Rightarrow> input_sample" where
  "chars_typed cs time =
     \<lparr>InputChars = cs, KeyPressed = (\<lambda>k. False), MouseButtonJustPressedLayer = False,
      CursorPosition = (0, 0), rangeOrder = [KeyLeft, KeyRight, KeyHome, KeyEnd, KeyBackspace, KeyDelete],
      now = time, timerFired = True\<rparr>"

text \<open>The keys in the order in which the map literal lists them.\<close>

definition declared_order :: "Key list" where
  "declared_order = [KeyLeft, KeyRight, KeyHome, KeyEnd, KeyBackspace, KeyDelete]"

lemmas eval_defs =
  insertChar_def removeChar_def slice_to_def slice_from_def runes.simps Let_def contb_def
  string_of_runes_def encoderune_def enc3_def runeError_def fontAdvance_def
  fontStringIndex_def fontStringIndex_loop.simps signed_divide_int_def fixedAdvance_def
  plain_widget_def NewTextInput_def Point_In_def Insets_Apply_def len_def

section \<open>Encoding and decoding\<close>

text \<open>
  Decoding what the encoder wrote gives the runes back, and cutting \<open>n\<close> bytes off the
  front of a string removes at most \<open>n\<close> of its runes.
\<close>

lemma decoderune_size: "1 \<le> snd (decoderune s) \<and> snd (decoderune s) \<le> 4"
  by (cases s) (auto simp: Let_def split: list.splits)

lemma decoderune_size_le: "s \<noteq> [] \<Longrightarrow> snd (decoderune s) \<le> length s"
  by (cases s) (auto simp: Let_def split: list.splits)

lemma mod_tag: "k < m \<Longrightarrow> (m * j + k) mod m = (k::nat)"
  by simp

lemma digits2: "(m::nat) div 64 * 4096 + m mod 64 * 64 = m * 64"
proof -
  have lin: "\<And>a b. m = 64 * a + b \<Longrightarrow> a * 4096 + b * 64 = m * (64::nat)" by simp
  show ?thesis by (rule lin) simp
qed

lemma split3: "n div 4096 * 4096 + n div 64 mod 64 * 64 + n mod 64 = (n::nat)"
proof -
  have "n div 4096 = n div 64 div 64" by (simp add: div_mult2_eq)
  then have "n div 4096 * 4096 + n div 64 mod 64 * 64 = n div 64 * 64"
    using digits2 [of "n div 64"] by simp
  then show ?thesis by simp
qed

lemma split4:
  "n div 262144 * 262144 + n div 4096 mod 64 * 4096 + n div 64 mod 64 * 64 + n mod 64 = (n::nat)"
proof -
  have lin: "\<And>a b m. m = 64 * a + b \<Longrightarrow> a * 262144 + b * 4096 = m * (4096::nat)" by simp
  have "n div 262144 = n div 4096 div 64" by (simp add: div_mult2_eq)
  moreover have "n div 4096 div 64 * 262144 + n div 4096 mod 64 * 4096 = n div 4096 * 4096"
    by (rule lin) simp
  ultimately have "n div 262144 * 262144 + n div 4096 mod 64 * 4096 = n div 4096 * 4096"
    by simp
  then show ?thesis using split3 [of n] by simp
qed

lemma cont_digit: "unat b = 0x80 + d mod 64 \<Longrightarrow> contb b \<and> unat b mod 64 = d mod 64"
  using mod_tag [of "d mod 64" 64 2] by (simp add: contb_def)

lemma decoderune_1: "unat b0 = n \<Longrightarrow> n < 0x80 \<Longrightarrow> decoderune (b0 # bs) = (int n, 1)"
  by simp

lemma decoderune_2:
  assumes b0: "unat b0 = 0xC0 + n div 64" and b1: "unat b1 = 0x80 + n mod 64"
    and n: "0x80 \<le> n" "n \<le> 0x7FF"
  shows "decoderune (b0 # b1 # bs) = (int n, 2)"
proof -
  have k: "n div 64 < 32" using n by simp
  have x: "\<not> unat b0 < 0x80" "0xC0 \<le> unat b0 \<and> unat b0 < 0xE0"
    using k by (simp_all add: b0)
  have m0: "unat b0 mod 32 = n div 64"
    using mod_tag [of "n div 64" 32 6] k by (simp add: b0)
  note c1 = cont_digit [OF b1]
  have v: "n div 64 * 64 + n mod 64 = n" by simp
  have big: "0x7F < n" using n by simp
  show ?thesis
    by (simp add: Let_def x m0 c1 v big del: div_mult_mod_eq)
qed


lemma decoderune_3:
  assumes b0: "unat b0 = 0xE0 + n div 4096" and b1: "unat b1 = 0x80 + n div 64 mod 64"
    and b2: "unat b2 = 0x80 + n mod 64"
    and n: "0x800 \<le> n" "n \<le> 0xFFFF" "\<not> (0xD800 \<le> n \<and> n \<le> 0xDFFF)"
  shows "decoderune (b0 # b1 # b2 # bs) = (int n, 3)"
proof -
  have k: "n div 4096 < 16" using n by simp
  have x: "\<not> unat b0 < 0x80" "\<not> (0xC0 \<le> unat b0 \<and> unat b0 < 0xE0)"
    "0xE0 \<le> unat b0 \<and> unat b0 < 0xF0"
    using k by (simp_all add: b0)
  have m0: "unat b0 mod 16 = n div 4096"
    using mod_tag [of "n div 4096" 16 14] k by (simp add: b0)
  note c1 = cont_digit [OF b1]
  note c2 = cont_digit [OF b2]
  have mm: "n div 64 mod 64 mod 64 = n div 64 mod 64" by simp
  have big: "0x7FF < n" using n by simp
  show ?thesis
    by (simp add: Let_def x m0 c1 c2 split3 big n(3) del: div_mult_mod_eq)
qed

lemma decoderune_4:
  assumes b0: "unat b0 = 0xF0 + n div 262144" and b1: "unat b1 = 0x80 + n div 4096 mod 64"
    and b2: "unat b2 = 0x80 + n div 64 mod 64" and b3: "unat b3 = 0x80 + n mod 64"
    and n: "0x10000 \<le> n" "n \<le> 0x10FFFF"
  shows "decoderune (b0 # b1 # b2 # b3 # bs) = (int n, 4)"
proof -
  have k: "n div 262144 < 8" using n by simp
  have x: "\<not> unat b0 < 0x80" "\<not> (0xC0 \<le> unat b0 \<and> unat b0 < 0xE0)"
    "\<not> (0xE0 \<le> unat b0 \<and> unat b0 < 0xF0)" "0xF0 \<le> unat b0 \<and> unat b0 < 0xF8"
    using k by (simp_all add: b0)
  have m0: "unat b0 mod 8 = n div 262144"
    using mod_tag [of "n div 262144" 8 30] k by (simp add: b0)
  note c1 = cont_digit [OF b1]
  note c2 = cont_digit [OF b2]
  note c3 = cont_digit [OF b3]
  have big: "0xFFFF < n" using n by simp
  show ?thesis
    by (simp add: Let_def x m0 c1 c2 c3 split4 big n(2) del: div_mult_mod_eq)
qed


lemma unat_enc: "k < 256 \<Longrightarrow> int k = j \<Longrightarrow> unat (word_of_int j :: byte) = k"
  by (auto simp: unat_of_nat)

lemma decoderune_enc3:
  assumes n: "0x800 \<le> n" "n \<le> 0xFFFF" "\<not> (0xD800 \<le> n \<and> n \<le> 0xDFFF)"
  shows "decoderune (enc3 (int n) @ bs) = (int n, 3)"
proof -
  have k: "n div 4096 < 16" using n by simp
  have b0: "unat (word_of_int (0xE0 + int n div 4096) :: byte) = 0xE0 + n div 4096"
    using k by (intro unat_enc) (simp_all add: zdiv_int)
  have b1: "unat (word_of_int (0x80 + int n div 64 mod 64) :: byte) = 0x80 + n div 64 mod 64"
    by (intro unat_enc) (simp_all add: zdiv_int zmod_int)
  have b2: "unat (word_of_int (0x80 + int n mod 64) :: byte) = 0x80 + n mod 64"
    by (intro unat_enc) (simp_all add: zmod_int)
  show ?thesis
    unfolding enc3_def using decoderune_3 [OF b0 b1 b2 n, of bs]
    by (simp del: decoderune.simps)
qed

lemma decoderune_runeError: "decoderune (enc3 runeError @ bs) = (runeError, 3)"
  using decoderune_enc3 [where n = "0xFFFD" and bs = bs]
  by (simp add: runeError_def del: decoderune.simps)

lemma decoderune_encoderune:
  "decoderune (encoderune r @ bs) = (validRune r, length (encoderune r))"
proof -
  consider (bad) "r < 0 \<or> 0x10FFFF < r \<or> (0xD800 \<le> r \<and> r \<le> 0xDFFF)"
    | (one) "0 \<le> r" "r \<le> 0x7F" | (two) "0x80 \<le> r" "r \<le> 0x7FF"
    | (three) "0x800 \<le> r" "r \<le> 0xFFFF" "\<not> (0xD800 \<le> r \<and> r \<le> 0xDFFF)"
    | (four) "0x10000 \<le> r" "r \<le> 0x10FFFF"
    by linarith
  then show ?thesis
  proof cases
    case bad
    then have e: "encoderune r = enc3 runeError" and v: "validRune r = runeError"
      by (auto simp: encoderune_def validRune_def)
    have l: "length (enc3 runeError) = 3" by (simp add: enc3_def)
    show ?thesis unfolding e v l by (rule decoderune_runeError)
  next
    case one
    define n where "n = nat r"
    have n: "r = int n" "n < 0x80" using one by (simp_all add: n_def)
    have e: "encoderune r = [word_of_int (int n)]" and v: "validRune r = int n"
      using one n(1) by (simp_all add: encoderune_def validRune_def)
    have "unat (word_of_int (int n) :: byte) = n"
      using n(2) by (intro unat_enc) simp_all
    from decoderune_1 [OF this n(2), of bs] show ?thesis
      unfolding e v by (simp del: decoderune.simps)
  next
    case two
    define n where "n = nat r"
    have n: "r = int n" "0x80 \<le> n" "n \<le> 0x7FF" using two by (simp_all add: n_def)
    have e: "encoderune r = [word_of_int (0xC0 + int n div 64), word_of_int (0x80 + int n mod 64)]"
      and v: "validRune r = int n"
      using two n(1) by (simp_all add: encoderune_def validRune_def)
    have k: "n div 64 < 32" using n by simp
    have b0: "unat (word_of_int (0xC0 + int n div 64) :: byte) = 0xC0 + n div 64"
      using k by (intro unat_enc) (simp_all add: zdiv_int)
    have b1: "unat (word_of_int (0x80 + int n mod 64) :: byte) = 0x80 + n mod 64"
      by (intro unat_enc) (simp_all add: zmod_int)
    from decoderune_2 [OF b0 b1 n(2,3), of bs] show ?thesis
      unfolding e v by (simp del: decoderune.simps)
  next
    case three
    define n where "n = nat r"
    have n: "r = int n" "0x800 \<le> n" "n \<le> 0xFFFF"
      "\<not> (0xD800 \<le> n \<and> n \<le> 0xDFFF)" using three by (auto simp: n_def)
    have e: "encoderune r = enc3 (int n)" and v: "validRune r = int n"
      using three n(1) by (auto simp: encoderune_def validRune_def)
    have l: "length (enc3 (int n)) = 3" by (simp add: enc3_def)
    show ?thesis unfolding e v l by (rule decoderune_enc3 [OF n(2,3,4)])
  next
    case four
    define n where "n = nat r"
    have n: "r = int n" "0x10000 \<le> n" "n \<le> 0x10FFFF" using four by (simp_all add: n_def)
    have e: "encoderune r = [word_of_int (0xF0 + int n div 262144),
          word_of_int (0x80 + int n div 4096 mod 64),
          word_of_int (0x80 + int n div 64 mod 64), word_of_int (0x80 + int n mod 64)]"
      and v: "validRune r = int n"
      using four n(1) by (simp_all add: encoderune_def validRune_def)
    have k: "n div 262144 < 8" using n by simp
    have b0: "unat (word_of_int (0xF0 + int n div 262144) :: byte) = 0xF0 + n div 262144"
      using k by (intro unat_enc) (simp_all add: zdiv_int)
    have b1: "unat (word_of_int (0x80 + int n div 4096 mod 64) :: byte) = 0x80 + n div 4096 mod 64"
      by (intro unat_enc) (simp_all add: zdiv_int zmod_int)
    have b2: "unat (word_of_int (0x80 + int n div 64 mod 64) :: byte) = 0x80 + n div 64 mod 64"
      by (intro unat_enc) (simp_all add: zdiv_int zmod_int)
    have b3: "unat (word_of_int (0x80 + int n mod 64) :: byte) = 0x80 + n mod 64"
      by (intro unat_enc) (simp_all add: zmod_int)
    from decoderune_4 [OF b0 b1 b2 b3 n(2,3), of bs] show ?thesis
      unfolding e v by (simp del: decoderune.simps)
  qed
qed


lemma runes_Nil [simp]: "runes [] = []"
  by (simp add: runes.simps)

lemma runes_Cons:
  "runes (b # bs) = fst (decoderune (b # bs)) # runes (drop (snd (decoderune (b # bs))) (b # bs))"
  by (subst runes.simps) simp

lemma encoderune_not_Nil: "encoderune r \<noteq> []"
  by (simp add: encoderune_def enc3_def)

lemma runes_encoderune: "runes (encoderune r @ bs) = validRune r # runes bs"
proof -
  obtain b es where e: "encoderune r = b # es"
    using encoderune_not_Nil [of r] by (cases "encoderune r") auto
  have d: "decoderune (b # es @ bs) = (validRune r, Suc (length es))"
    using decoderune_encoderune [of r bs] by (simp add: e del: decoderune.simps)
  show ?thesis
    unfolding e by (simp add: runes_Cons d del: decoderune.simps)
qed

lemma runes_string_of_runes_append:
  "runes (string_of_runes rs @ bs) = map validRune rs @ runes bs"
  by (induction rs) (simp_all add: string_of_runes_def runes_encoderune)

lemma runes_string_of_runes: "runes (string_of_runes rs) = map validRune rs"
  using runes_string_of_runes_append [of rs "[]"] by simp

lemma length_runes_le: "length (runes s) \<le> length s"
proof (induction s rule: runes.induct)
  case (1 s)
  show ?case
  proof (cases s)
    case Nil
    then show ?thesis by simp
  next
    case (Cons b bs)
    have k: "1 \<le> snd (decoderune s)" "snd (decoderune s) \<le> length s"
      using decoderune_size [of s] decoderune_size_le [of s] Cons by auto
    have "length (runes s) = Suc (length (runes (drop (snd (decoderune s)) s)))"
      unfolding Cons by (subst runes_Cons) simp
    also have "\<dots> \<le> Suc (length (drop (snd (decoderune s)) s))"
      using "1.IH" Cons by simp
    also have "\<dots> \<le> length s" using k by simp
    finally show ?thesis .
  qed
qed

lemma decoderune_contb: "contb b \<Longrightarrow> decoderune (b # bs) = (runeError, 1)"
  by (simp add: contb_def)

lemma runes_contb: "contb b \<Longrightarrow> runes (b # bs) = runeError # runes bs"
  by (simp add: runes_Cons decoderune_contb del: decoderune.simps)


lemma decoderune_shape:
  "snd (decoderune (b # bs)) = 1
   \<or> (\<exists>b1 rest. snd (decoderune (b # bs)) = 2 \<and> bs = b1 # rest \<and> contb b1)
   \<or> (\<exists>b1 b2 rest. snd (decoderune (b # bs)) = 3 \<and> bs = b1 # b2 # rest \<and> contb b1 \<and> contb b2)
   \<or> (\<exists>b1 b2 b3 rest. snd (decoderune (b # bs)) = 4 \<and> bs = b1 # b2 # b3 # rest
         \<and> contb b1 \<and> contb b2 \<and> contb b3)"
  by (simp add: Let_def split: list.split)

lemma length_runes_tl: "length (runes (b # bs)) \<le> Suc (length (runes bs))"
proof -
  have step: "length (runes (b # bs)) = Suc (length (runes (drop (snd (decoderune (b # bs))) (b # bs))))"
    by (subst runes_Cons) simp
  from decoderune_shape [of b bs] show ?thesis
  proof (elim disjE exE conjE)
    assume "snd (decoderune (b # bs)) = 1"
    then show ?thesis unfolding step by simp
  next
    fix b1 rest
    assume "snd (decoderune (b # bs)) = 2" "bs = b1 # rest" "contb b1"
    then show ?thesis unfolding step by (simp add: runes_contb del: decoderune.simps)
  next
    fix b1 b2 rest
    assume "snd (decoderune (b # bs)) = 3" "bs = b1 # b2 # rest" "contb b1" "contb b2"
    then show ?thesis unfolding step by (simp add: runes_contb del: decoderune.simps)
  next
    fix b1 b2 b3 rest
    assume "snd (decoderune (b # bs)) = 4" "bs = b1 # b2 # b3 # rest" "contb b1" "contb b2"
      "contb b3"
    then show ?thesis unfolding step by (simp add: runes_contb del: decoderune.simps)
  qed
qed

lemma length_runes_drop: "length (runes s) \<le> n + length (runes (drop n s))"
proof (induction n arbitrary: s)
  case 0
  show ?case by simp
next
  case (Suc n)
  show ?case
  proof (cases s)
    case Nil
    then show ?thesis by simp
  next
    case (Cons b bs)
    have "length (runes s) \<le> Suc (length (runes bs))"
      unfolding Cons by (rule length_runes_tl)
    also have "\<dots> \<le> Suc (n + length (runes (drop n bs)))"
      using Suc.IH [of bs] by simp
    finally show ?thesis using Cons by simp
  qed
qed

lemma string_of_runes_append:
  "string_of_runes (xs @ ys) = string_of_runes xs @ string_of_runes ys"
  by (simp add: string_of_runes_def)

lemma insertChar_in_bounds:
  assumes "0 \<le> pos" "pos \<le> int (length (runes s))"
  shows "insertChar s r pos =
     Inr (string_of_runes (take (nat pos) (runes s)) @ encoderune r
          @ string_of_runes (runes (drop (nat pos) s)))"
proof -
  have "pos \<le> int (length s)" using assms(2) length_runes_le [of s] by linarith
  with assms show ?thesis by (simp add: insertChar_def slice_to_def slice_from_def)
qed

lemma removeChar_in_bounds:
  assumes "0 \<le> pos" "pos < int (length (runes s))"
  shows "removeChar s pos =
     Inr (string_of_runes (take (nat pos) (runes s) @ drop (nat pos + 1) (runes s)))"
  using assms
  by (simp add: removeChar_def slice_to_def slice_from_def string_of_runes_append nat_add_distrib)

lemma length_runes_insertChar:
  assumes "0 \<le> pos" "pos \<le> int (length (runes s))" and "insertChar s r pos = Inr s'"
  shows "length (runes s) < length (runes s')"
proof -
  have s': "s' = string_of_runes (take (nat pos) (runes s)) @ encoderune r
          @ string_of_runes (runes (drop (nat pos) s))"
    using insertChar_in_bounds [OF assms(1,2), of r] assms(3) by simp
  have "length (runes s') = length (take (nat pos) (runes s)) + 1
        + length (runes (drop (nat pos) s))"
    unfolding s'
    by (simp add: runes_string_of_runes_append runes_encoderune runes_string_of_runes)
  moreover have "length (take (nat pos) (runes s)) = nat pos" using assms(2) by simp
  moreover have "length (runes s) \<le> nat pos + length (runes (drop (nat pos) s))"
    by (rule length_runes_drop)
  ultimately show ?thesis by linarith
qed

section \<open>Text of single-byte code points\<close>

text \<open>
  Where every code point of the text takes one byte, byte offsets and code-point offsets
  agree, and the operations that mix the two do what they are meant to do:
  \<^verbatim>\<open>insertChar\<close> splices at the code-point position, and \<^verbatim>\<open>fontStringIndex\<close> with a
  face whose advance does not decrease along the text returns the index of a boundary
  nearest to the offset, the smaller index when a boundary on either side is equally
  near.
\<close>

lemma runes_ascii: "ascii s \<Longrightarrow> runes s = map (\<lambda>b. int (unat b)) s"
proof (induction s)
  case Nil
  show ?case by simp
next
  case (Cons b bs)
  then have b: "unat b < 0x80" and bs: "ascii bs" by (simp_all add: ascii_def)
  have "decoderune (b # bs) = (int (unat b), 1)" using b by simp
  then show ?case using Cons.IH [OF bs] by (simp add: runes_Cons del: decoderune.simps)
qed

lemma encoderune_ascii:
  assumes "unat b < 0x80"
  shows "encoderune (int (unat b)) = [b]"
proof -
  have "int (unat b) \<le> 0x7F" using assms by linarith
  then have u: "uint b \<le> 0x7F" by simp
  show ?thesis using u by (simp add: encoderune_def)
qed

lemma string_of_runes_ascii: "ascii s \<Longrightarrow> string_of_runes (map (\<lambda>b. int (unat b)) s) = s"
proof (induction s)
  case Nil
  show ?case by (simp add: string_of_runes_def)
next
  case (Cons b bs)
  then have b: "unat b < 0x80" and bs: "ascii bs" by (simp_all add: ascii_def)
  have "string_of_runes (map (\<lambda>b. int (unat b)) (b # bs))
        = encoderune (int (unat b)) @ string_of_runes (map (\<lambda>b. int (unat b)) bs)"
    by (simp add: string_of_runes_def)
  then show ?case unfolding encoderune_ascii [OF b] Cons.IH [OF bs] by simp
qed

lemma ascii_take: "ascii s \<Longrightarrow> ascii (take n s)"
  by (simp add: ascii_def list_all_iff) (meson in_set_takeD)

lemma ascii_drop: "ascii s \<Longrightarrow> ascii (drop n s)"
  by (simp add: ascii_def list_all_iff) (meson in_set_dropD)

lemma prefix_ascii: "ascii s \<Longrightarrow> string_of_runes (take n (runes s)) = take n s"
  using string_of_runes_ascii [OF ascii_take, of s n] by (simp add: runes_ascii take_map)

lemma suffix_ascii: "ascii s \<Longrightarrow> string_of_runes (drop n (runes s)) = drop n s"
  using string_of_runes_ascii [OF ascii_drop, of s n] by (simp add: runes_ascii drop_map)

lemma length_runes_ascii: "ascii s \<Longrightarrow> length (runes s) = length s"
  by (simp add: runes_ascii)

lemma runes_ascii_append: "ascii a \<Longrightarrow> runes (a @ b) = runes a @ runes b"
proof (induction a)
  case Nil
  show ?case by simp
next
  case (Cons c cs)
  then have c: "unat c < 0x80" and cs: "ascii cs" by (simp_all add: ascii_def)
  have d: "decoderune (c # xs) = (int (unat c), 1)" for xs using c by simp
  show ?case
    using Cons.IH [OF cs] by (simp add: runes_Cons d del: decoderune.simps)
qed

lemma insertChar_ascii:
  assumes asc: "ascii s" and pos: "0 \<le> pos" "pos \<le> int (length s)"
  shows "insertChar s r pos = Inr (take (nat pos) s @ encoderune r @ drop (nat pos) s)
         \<and> runes (take (nat pos) s @ encoderune r @ drop (nat pos) s)
             = take (nat pos) (runes s) @ [validRune r] @ drop (nat pos) (runes s)"
proof -
  have le: "pos \<le> int (length (runes s))" using pos by (simp add: length_runes_ascii [OF asc])
  have tail: "string_of_runes (runes (drop (nat pos) s)) = drop (nat pos) s"
    using string_of_runes_ascii [OF ascii_drop [OF asc]] runes_ascii [OF ascii_drop [OF asc]]
    by simp
  have ins: "insertChar s r pos = Inr (take (nat pos) s @ encoderune r @ drop (nat pos) s)"
    unfolding insertChar_in_bounds [OF pos(1) le] prefix_ascii [OF asc] tail ..
  have "runes (take (nat pos) s @ encoderune r @ drop (nat pos) s)
        = runes (take (nat pos) s) @ validRune r # runes (drop (nat pos) s)"
    by (simp add: runes_ascii_append [OF ascii_take [OF asc]] runes_encoderune)
  also have "\<dots> = take (nat pos) (runes s) @ [validRune r] @ drop (nat pos) (runes s)"
    by (simp add: runes_ascii [OF asc] runes_ascii [OF ascii_take [OF asc]]
        runes_ascii [OF ascii_drop [OF asc]] take_map drop_map)
  finally show ?thesis using ins by simp
qed

lemma sdiv2_nonneg: "0 \<le> k \<Longrightarrow> k sdiv 2 = k div (2::int)"
  by (simp add: signed_divide_int_def sgn_if)

lemma slice_prefix_ascii:
  assumes "ascii s" "0 \<le> p" "p \<le> int (length s)"
  shows "slice_to (runes s) p = Inr (take (nat p) (runes s))"
    and "fontAdvance (string_of_runes (take (nat p) (runes s))) f = f (take (nat p) s)"
  using assms by (simp_all add: slice_to_def length_runes_ascii prefix_ascii fontAdvance_def)

lemma fontStringIndex_loop_ascii:
  assumes asc: "ascii s"
    and inv: "0 \<le> start" "end' \<le> int (length s)"
      "(start < end' \<and> (start = 0 \<or> f (take (nat start) s) < x)
          \<and> (end' = int (length s) \<or> x < f (take (nat end') s)))
       \<or> (start = 0 \<and> end' = 0 \<and> (length s = 0 \<or> x < f []))"
  shows "\<exists>flag p. fontStringIndex_loop s f x start end' = Inr (flag, p)
           \<and> 0 \<le> p \<and> p \<le> int (length s)
           \<and> (flag \<longrightarrow> f (take (nat p) s) = x)
           \<and> (\<not> flag \<longrightarrow> 0 < length s \<longrightarrow>
                 p + 1 \<le> int (length s)
                 \<and> ((f (take (nat p) s) < x
                      \<and> (p + 1 = int (length s) \<or> x < f (take (nat (p + 1)) s)))
                    \<or> (p = 0 \<and> x < f [])))"
  using inv
proof (induction "nat (end' - start)" arbitrary: start end' rule: less_induct)
  case less
  define p where "p = start + (end' - start) sdiv 2"
  have se: "start \<le> end'" using less.prems(3) by auto
  have pdiv: "p = start + (end' - start) div 2"
    using se by (simp add: p_def sdiv2_nonneg)
  have pr: "start \<le> p" "p \<le> end'" "start < end' \<Longrightarrow> p < end'"
    using se unfolding pdiv by simp_all
  have p0: "0 \<le> p" "p \<le> int (length s)" using pr less.prems(1,2) by simp_all
  note sl = slice_prefix_ascii [OF asc p0]
  define a where "a = f (take (nat p) s)"
  have unfold: "fontStringIndex_loop s f x start end' =
      (if x - a = 0 then Inr (True, p)
       else if x - a > 0 then
         (if p = start then Inr (False, p) else fontStringIndex_loop s f x p end')
       else (if end' = p then Inr (False, p) else fontStringIndex_loop s f x start p))"
    by (subst fontStringIndex_loop.simps) (simp add: Let_def p_def [symmetric] sl a_def)
  consider (hit) "x - a = 0" | (above) "x - a > 0" | (below) "x - a < 0" by linarith
  then show ?case
  proof cases
    case hit
    then show ?thesis using unfold p0
      by (intro exI [of _ True] exI [of _ p]) (simp add: a_def)
  next
    case above
    show ?thesis
    proof (cases "p = start")
      case True
      have res: "fontStringIndex_loop s f x start end' = Inr (False, p)"
        using unfold above True by simp
      show ?thesis
      proof (cases "start < end'")
        case lt: True
        then have "end' = p + 1" using True pdiv by linarith
        with less.prems(2,3) lt True above res p0 show ?thesis
          by (intro exI [of _ False] exI [of _ p]) (auto simp: a_def)
      next
        case False
        with less.prems(3) have z: "start = 0" "end' = 0" "length s = 0 \<or> x < f []" by auto
        have "p = 0" using z pr by simp
        with z above have "length s = 0" by (auto simp: a_def)
        with res \<open>p = 0\<close> show ?thesis
          by (intro exI [of _ False] exI [of _ p]) simp
      qed
    next
      case False
      have lt: "start < end'" using False pr se by linarith
      have res: "fontStringIndex_loop s f x start end' = fontStringIndex_loop s f x p end'"
        using unfold above False by simp
      have m: "nat (end' - p) < nat (end' - start)" using False pr lt by linarith
      have i3: "(p < end' \<and> (p = 0 \<or> f (take (nat p) s) < x)
          \<and> (end' = int (length s) \<or> x < f (take (nat end') s)))
       \<or> (p = 0 \<and> end' = 0 \<and> (length s = 0 \<or> x < f []))"
        using pr(3) [OF lt] above less.prems(3) lt by (auto simp: a_def)
      from less.hyps [OF m p0(1) less.prems(2) i3] show ?thesis unfolding res .
    qed
  next
    case below
    show ?thesis
    proof (cases "end' = p")
      case True
      have res: "fontStringIndex_loop s f x start end' = Inr (False, p)"
        using unfold below True by simp
      have nlt: "\<not> start < end'" using True pr(3) by auto
      with less.prems(3) have z: "start = 0" "end' = 0" "length s = 0 \<or> x < f []" by auto
      have "p = 0" using z pr by simp
      with z res show ?thesis
        by (intro exI [of _ False] exI [of _ p]) (auto simp: Suc_le_eq)
    next
      case False
      have lt: "start < end'" using False pr se by linarith
      have res: "fontStringIndex_loop s f x start end' = fontStringIndex_loop s f x start p"
        using unfold below False by simp
      have m: "nat (p - start) < nat (end' - start)" using pr(3) [OF lt] pr(1) by linarith
      have i3: "(start < p \<and> (start = 0 \<or> f (take (nat start) s) < x)
          \<and> (p = int (length s) \<or> x < f (take (nat p) s)))
       \<or> (start = 0 \<and> p = 0 \<and> (length s = 0 \<or> x < f []))"
      proof (cases "start < p")
        case True
        with below less.prems(3) lt show ?thesis by (auto simp: a_def)
      next
        case False
        then have eq: "p = start" using pr by simp
        have "start = 0"
          using less.prems(3) lt below eq by (auto simp: a_def)
        with eq below show ?thesis by (auto simp: a_def)
      qed
      from less.hyps [OF m less.prems(1) p0(2) i3] show ?thesis unfolding res .
    qed
  qed
qed

lemma fontStringIndex_ascii_nearest:
  assumes asc: "ascii s"
    and mono: "\<And>i j. i \<le> j \<Longrightarrow> j \<le> length s \<Longrightarrow> f (take i s) \<le> f (take j s)"
  shows "\<exists>p. fontStringIndex s f x = Inr p \<and> 0 \<le> p \<and> p \<le> int (length s)
           \<and> (\<forall>i \<le> length s. \<bar>x - f (take (nat p) s)\<bar> \<le> \<bar>x - f (take i s)\<bar>)
           \<and> (\<forall>i \<le> length s. \<bar>x - f (take i s)\<bar> = \<bar>x - f (take (nat p) s)\<bar> \<longrightarrow>
                  nat p \<le> i \<or> f (take i s) = f (take (nat p) s))"
proof -
  have inv: "(0 < int (length s) \<and> ((0::int) = 0 \<or> f (take (nat 0) s) < x)
          \<and> (int (length s) = int (length s) \<or> x < f (take (nat (int (length s))) s)))
       \<or> ((0::int) = 0 \<and> int (length s) = 0 \<and> (length s = 0 \<or> x < f []))"
    by auto
  from fontStringIndex_loop_ascii [OF asc _ _ inv]
  obtain flag p where loop: "fontStringIndex_loop s f x 0 (int (length s)) = Inr (flag, p)"
    and p: "0 \<le> p" "p \<le> int (length s)"
    and hit: "flag \<Longrightarrow> f (take (nat p) s) = x"
    and brk: "\<not> flag \<Longrightarrow> 0 < length s \<Longrightarrow>
                 p + 1 \<le> int (length s)
                 \<and> ((f (take (nat p) s) < x
                      \<and> (p + 1 = int (length s) \<or> x < f (take (nat (p + 1)) s)))
                    \<or> (p = 0 \<and> x < f []))"
    by auto
  show ?thesis
  proof (cases flag)
    case True
    have "fontStringIndex s f x = Inr p" using loop True by (simp add: fontStringIndex_def)
    with p hit [OF True] show ?thesis by auto
  next
    case False
    show ?thesis
    proof (cases "length s = 0")
      case True
      have "fontStringIndex s f x = Inr p" using loop False True by (simp add: fontStringIndex_def)
      with p True show ?thesis by simp
    next
      case ne: False
      then have pos: "0 < length s" by simp
      from brk [OF False pos] have p1: "p + 1 \<le> int (length s)"
        and shape: "(f (take (nat p) s) < x
                      \<and> (p + 1 = int (length s) \<or> x < f (take (nat (p + 1)) s)))
                    \<or> (p = 0 \<and> x < f [])"
        by simp_all
      define a1 where "a1 = f (take (nat p) s)"
      define a2 where "a2 = f (take (nat (p + 1)) s)"
      have p1': "0 \<le> p + 1" using p by simp
      have res: "fontStringIndex s f x = (if \<bar>x - a2\<bar> < \<bar>x - a1\<bar> then Inr (p + 1) else Inr p)"
        using loop False pos
        by (simp add: fontStringIndex_def slice_prefix_ascii [OF asc p]
            slice_prefix_ascii [OF asc p1' p1] Let_def a1_def a2_def)
      have a12: "a1 \<le> a2"
        unfolding a1_def a2_def using p p1 by (intro mono) simp_all
      have np: "nat p \<le> length s" "nat (p + 1) \<le> length s" "nat (p + 1) = Suc (nat p)"
        using p p1 by simp_all
      from shape consider
          (bracket) "f (take (nat p) s) < x"
            "p + 1 = int (length s) \<or> x < f (take (nat (p + 1)) s)"
        | (left) "p = 0" "x < f []"
        by blast
      then show ?thesis
      proof cases
        case bracket
        note lo = bracket(1) and hi = bracket(2)
        have below: "\<bar>x - a1\<bar> \<le> \<bar>x - f (take i s)\<bar>" if "i \<le> nat p" for i
        proof -
          have "f (take i s) \<le> a1" unfolding a1_def using that np by (intro mono) simp_all
          with lo show ?thesis by (simp add: a1_def)
        qed
        have above: "\<bar>x - a2\<bar> \<le> \<bar>x - f (take i s)\<bar>" if "Suc (nat p) \<le> i" "i \<le> length s" for i
        proof -
          from hi show ?thesis
          proof
            assume "p + 1 = int (length s)"
            then have "i = nat (p + 1)" using that np by linarith
            then show ?thesis by (simp add: a2_def)
          next
            assume x: "x < f (take (nat (p + 1)) s)"
            have "a2 \<le> f (take i s)" unfolding a2_def using that np by (intro mono) simp_all
            with x show ?thesis by (simp add: a2_def)
          qed
        qed
        show ?thesis
        proof (cases "\<bar>x - a2\<bar> < \<bar>x - a1\<bar>")
          case True
          have near: "\<bar>x - a2\<bar> \<le> \<bar>x - f (take i s)\<bar>" if "i \<le> length s" for i
            using below [of i] above [of i] that True by (cases "i \<le> nat p") auto
          have tie: "nat (p + 1) \<le> i \<or> f (take i s) = a2"
            if "i \<le> length s" "\<bar>x - f (take i s)\<bar> = \<bar>x - a2\<bar>" for i
            using below [of i] that True np by (cases "i \<le> nat p") auto
          have r: "fontStringIndex s f x = Inr (p + 1)" using res True by simp
          show ?thesis
            using r p p1 near tie unfolding a2_def
            by (intro exI [of _ "p + 1"]) simp
        next
          case False
          have near: "\<bar>x - a1\<bar> \<le> \<bar>x - f (take i s)\<bar>" if "i \<le> length s" for i
            using below [of i] above [of i] that False by (cases "i \<le> nat p") auto
          have tie: "nat p \<le> i \<or> f (take i s) = a1"
            if "i \<le> length s" "\<bar>x - f (take i s)\<bar> = \<bar>x - a1\<bar>" for i
          proof (cases "i \<le> nat p")
            case True
            have "f (take i s) \<le> a1" unfolding a1_def using True np by (intro mono) simp_all
            with that(2) lo show ?thesis by (simp add: a1_def)
          next
            case False
            then show ?thesis by simp
          qed
          have r: "fontStringIndex s f x = Inr p" using res False by simp
          show ?thesis
            using r p near tie unfolding a1_def
            by (intro exI [of _ p]) simp
        qed
      next
        case left
        note z = left(1) and x = left(2)
        have a1: "a1 = f []" by (simp add: a1_def z)
        have "\<not> \<bar>x - a2\<bar> < \<bar>x - a1\<bar>" using a12 x a1 by simp
        then have r: "fontStringIndex s f x = Inr 0" using res z by simp
        have "\<bar>x - f []\<bar> \<le> \<bar>x - f (take i s)\<bar>" if "i \<le> length s" for i
        proof -
          have "f (take 0 s) \<le> f (take i s)" using that by (intro mono) simp_all
          with x show ?thesis by simp
        qed
        with r show ?thesis by simp
      qed
    qed
  qed
qed

section \<open>One evaluation of the state machine\<close>

text \<open>
  The loop of \<^verbatim>\<open>Render\<close> unfolded for each state it can start in, and what the
  evaluation leaves behind: the state, the operations performed, the repeat settings.
\<close>

lemma run_states_CharInput:
  "state t = CharInputState c \<Longrightarrow>
   run_states inp t =
     (case charInputState c inp t of
        Inl e \<Rightarrow> Inl e
      | Inr (t', st', rerun, acts) \<Rightarrow> Inr (t'\<lparr>state := IdleState True\<rparr>, acts))"
  apply (subst run_states.simps)
  apply (simp add: charInputState_def split: sum.split)
  done

lemma run_states_Command_start:
  "state t = CommandState cmd key delay None \<Longrightarrow> KeyPressed inp key \<Longrightarrow>
   run_states inp t =
     (case commandToFunc cmd t of
        Inl e \<Rightarrow> Inl e
      | Inr t' \<Rightarrow>
          Inr (t'\<lparr>state := CommandState cmd key delay (Some (now inp + delay))\<rparr>, [Command cmd]))"
  apply (subst run_states.simps)
  apply (simp add: commandState_def split: sum.split)
  done

lemma run_states_Command_released:
  "state t = CommandState cmd key delay timer \<Longrightarrow> \<not> KeyPressed inp key \<Longrightarrow>
   run_states inp t = run_states inp (t\<lparr>state := IdleState True\<rparr>)"
  apply (subst run_states.simps)
  apply (simp add: commandState_def split: sum.split prod.split)
  done




lemma case_run_states: 
  "(case run_states inp t of Inl e \<Rightarrow> Inl e | Inr (t'', acts') \<Rightarrow> Inr (t'', [] @ acts')) = run_states inp t"
  by (simp split: sum.split prod.split)

lemma run_states_Idle_char:
  "state t = IdleState b \<Longrightarrow> InputChars inp = c # cs \<Longrightarrow>
   run_states inp t = run_states inp (t\<lparr>state := CharInputState c\<rparr>)"
  apply (subst run_states.simps)
  apply (simp add: idleState_def Let_def case_run_states)
  done

lemma run_states_Idle_key:
  "state t = IdleState b \<Longrightarrow> InputChars inp = [] \<Longrightarrow>
   find (KeyPressed inp) (rangeOrder inp) = Some key \<Longrightarrow>
   run_states inp t =
     run_states inp
       (t\<lparr>state := CommandState (textInputKeyToCommand key) key
                     (if b then repeatDelay t else repeatInterval t) None\<rparr>)"
  apply (subst run_states.simps)
  apply (simp add: idleState_def Let_def case_run_states)
  done

lemma run_states_Idle_rest:
  "state t = IdleState b \<Longrightarrow> InputChars inp = [] \<Longrightarrow>
   find (KeyPressed inp) (rangeOrder inp) = None \<Longrightarrow>
   run_states inp t =
     (if MouseButtonJustPressedLayer inp then
        (case doGoXY (fst (CursorPosition inp)) (snd (CursorPosition inp)) t of
           Inl e \<Rightarrow> Inl e
         | Inr t' \<Rightarrow>
             Inr (t'\<lparr>state := IdleState True\<rparr>,
                  [Click (fst (CursorPosition inp)) (snd (CursorPosition inp))]))
      else Inr (t\<lparr>state := IdleState True\<rparr>, []))"
  apply (subst run_states.simps)
  apply (simp add: idleState_def Let_def split: sum.split)
  done


lemma commandToFunc_config:
  "commandToFunc cmd t = Inr t' \<Longrightarrow>
   repeatDelay t' = repeatDelay t \<and> repeatInterval t' = repeatInterval t"
  by (cases cmd)
     (auto simp: doGoLeft_def doGoRight_def doGoStart_def doGoEnd_def doBackspace_def
        doDelete_def split: if_splits sum.splits)

lemma doInsert_config:
  "doInsert c t = Inr t' \<Longrightarrow>
   repeatDelay t' = repeatDelay t \<and> repeatInterval t' = repeatInterval t"
  by (auto simp: doInsert_def split: if_splits sum.splits option.splits)

lemma doGoXY_config:
  "doGoXY x y t = Inr t' \<Longrightarrow>
   repeatDelay t' = repeatDelay t \<and> repeatInterval t' = repeatInterval t"
  by (auto simp: doGoXY_def Let_def split: if_splits sum.splits)

lemma outcome_CharInput:
  assumes "state t = CharInputState c" and "run_states inp t = Inr (t', acts)"
  shows "state t' = IdleState True \<and> (acts = [] \<or> acts = [Insert c])
         \<and> repeatDelay t' = repeatDelay t \<and> repeatInterval t' = repeatInterval t"
  using assms(2) unfolding run_states_CharInput [OF assms(1)]
  by (auto simp: charInputState_def split: if_splits sum.splits dest: doInsert_config)

lemma outcome_Command_start:
  assumes "state t = CommandState cmd key delay None" and "KeyPressed inp key"
    and "run_states inp t = Inr (t', acts)"
  shows "acts = [Command cmd] \<and> state t' = CommandState cmd key delay (Some (now inp + delay))
         \<and> repeatDelay t' = repeatDelay t \<and> repeatInterval t' = repeatInterval t"
  using assms(3) unfolding run_states_Command_start [OF assms(1,2)]
  by (auto split: sum.splits dest: commandToFunc_config)


lemma outcome_Idle:
  assumes st: "state t = IdleState b" and run: "run_states inp t = Inr (t', acts)"
  shows "repeatDelay t' = repeatDelay t \<and> repeatInterval t' = repeatInterval t
         \<and> ((state t' = IdleState True
              \<and> (acts = [] \<or> (\<exists>c. acts = [Insert c]) \<or> (\<exists>x y. acts = [Click x y])))
            \<or> (\<exists>key. KeyPressed inp key
                 \<and> acts = [Command (textInputKeyToCommand key)]
                 \<and> state t' = CommandState (textInputKeyToCommand key) key
                      (if b then repeatDelay t else repeatInterval t)
                      (Some (now inp + (if b then repeatDelay t else repeatInterval t)))))"
proof (cases "InputChars inp")
  case (Cons c cs)
  have s: "state (t\<lparr>state := CharInputState c\<rparr>) = CharInputState c" by simp
  have "run_states inp (t\<lparr>state := CharInputState c\<rparr>) = Inr (t', acts)"
    using run run_states_Idle_char [OF st Cons] by simp
  from outcome_CharInput [OF s this] show ?thesis by auto
next
  case Nil
  show ?thesis
  proof (cases "find (KeyPressed inp) (rangeOrder inp)")
    case (Some key)
    then have pressed: "KeyPressed inp key" by (simp add: find_Some_iff) blast
    define d where "d = (if b then repeatDelay t else repeatInterval t)"
    define t0 where "t0 = t\<lparr>state := CommandState (textInputKeyToCommand key) key d None\<rparr>"
    have s: "state t0 = CommandState (textInputKeyToCommand key) key d None"
      by (simp add: t0_def)
    have "run_states inp t0 = Inr (t', acts)"
      using run run_states_Idle_key [OF st Nil Some] by (simp add: t0_def d_def)
    from outcome_Command_start [OF s pressed this]
    have "acts = [Command (textInputKeyToCommand key)]"
      and "state t' = CommandState (textInputKeyToCommand key) key d (Some (now inp + d))"
      and "repeatDelay t' = repeatDelay t" and "repeatInterval t' = repeatInterval t"
      by (simp_all add: t0_def)
    with pressed show ?thesis unfolding d_def by blast
  next
    case None
    show ?thesis
    proof (cases "MouseButtonJustPressedLayer inp")
      case True
      from run obtain t1 where g: "doGoXY (fst (CursorPosition inp)) (snd (CursorPosition inp)) t = Inr t1"
        and t': "t' = t1\<lparr>state := IdleState True\<rparr>"
        and a: "acts = [Click (fst (CursorPosition inp)) (snd (CursorPosition inp))]"
        unfolding run_states_Idle_rest [OF st Nil None] using True
        by (auto split: sum.splits)
      from doGoXY_config [OF g] t' a show ?thesis by simp
    next
      case False
      with run show ?thesis
        unfolding run_states_Idle_rest [OF st Nil None] by auto
    qed
  qed
qed


lemma not_isl_Inr4: "\<not> isl r \<Longrightarrow> \<exists>a b c d. r = Inr (a, b, c, d)"
  by (cases r) auto

lemma textInputKeyToCommand_inj:
  "textInputKeyToCommand k = textInputKeyToCommand k' \<Longrightarrow> k = k'"
  by (cases k; cases k') simp_all

lemma drawTextAndCaret_frame:
  "drawTextAndCaret t = Inr (t', textLoc, caretLoc) \<Longrightarrow>
   state t' = state t \<and> repeatDelay t' = repeatDelay t \<and> repeatInterval t' = repeatInterval t
   \<and> InputText t' = InputText t \<and> cursorPosition t' = cursorPosition t"
  by (auto simp: drawTextAndCaret_def Let_def split: sum.splits)

lemma clamp_cursor_frame:
  "state (clamp_cursor t) = state t \<and> repeatDelay (clamp_cursor t) = repeatDelay t
   \<and> repeatInterval (clamp_cursor t) = repeatInterval t"
  by (simp add: clamp_cursor_def)

lemma Render_run_states:
  assumes "Render inp t = Inr (t', acts, textLoc, caretLoc)"
  obtains t2 where "run_states inp (clamp_cursor t) = Inr (t2, acts)"
    and "drawTextAndCaret t2 = Inr (t', textLoc, caretLoc)"
  using assms
  by (auto simp: Render_def clamp_cursor_def Let_def split: sum.splits if_splits)












lemma drawTextAndCaret_eq:
  assumes "0 \<le> cursorPosition t" "cursorPosition t \<le> len (InputText t)"
  shows "drawTextAndCaret t =
     (let cx = fontAdvance (take (nat (cursorPosition t)) (InputText t)) (face t);
          dx = X (rMin (widget_Rect t)) + Left (padding t) + scrollOffset t + cx + caret_Width t
               + Right (padding t) - X (rMax (widget_Rect t));
          so1 = (if dx > 0 then scrollOffset t - dx else scrollOffset t);
          so2 = (if so1 + cx < 0 then - cx else so1);
          x0 = X (rMin (widget_Rect t)) + Left (padding t) + so2;
          y0 = Y (rMin (widget_Rect t)) + Top (padding t);
          x1 = X (rMax (widget_Rect t)) + Left (padding t) + so2;
          y1 = Y (rMax (widget_Rect t)) + Top (padding t)
      in Inr (t\<lparr>scrollOffset := so2\<rparr>,
              \<lparr>rMin = \<lparr>X = x0, Y = y0\<rparr>, rMax = \<lparr>X = x1, Y = y1\<rparr>\<rparr>,
              \<lparr>rMin = \<lparr>X = x0 + cx, Y = y0\<rparr>, rMax = \<lparr>X = x1 + cx, Y = y1\<rparr>\<rparr>))"
  using assms
  by (simp add: drawTextAndCaret_def slice_to_def len_def Let_def Rectangle_Add_def)

section \<open>The cursor stays within the bytes of the text\<close>

text \<open>
  Every operation that returns leaves the cursor between 0 and \<^verbatim>\<open>len(t.InputText)\<close>,
  and \<^verbatim>\<open>fontStringIndex\<close>, when it returns, returns an index within the runes of the
  text.  So does a whole call of \<^verbatim>\<open>Render\<close>, which therefore reaches
  \<^verbatim>\<open>drawTextAndCaret\<close> with a cursor that \<^verbatim>\<open>t.InputText[:t.cursorPosition]\<close> accepts.
\<close>

lemma length_string_of_runes: "length rs \<le> length (string_of_runes rs)"
proof (induction rs)
  case Nil
  show ?case by (simp add: string_of_runes_def)
next
  case (Cons r rs)
  have "1 \<le> length (encoderune r)"
    using encoderune_not_Nil [of r] by (cases "encoderune r") simp_all
  with Cons show ?case by (simp add: string_of_runes_def)
qed

lemma slice_to_Inr: "slice_to xs i = Inr ys \<Longrightarrow> 0 \<le> i \<and> i \<le> int (length xs) \<and> ys = take (nat i) xs"
  by (auto simp: slice_to_def split: if_splits)

lemma insertChar_length:
  assumes "insertChar s r pos = Inr s'"
  shows "pos + 1 \<le> int (length s')"
proof -
  from assms obtain front tail where f: "slice_to (runes s) pos = Inr front"
    and s': "s' = string_of_runes front @ encoderune r @ string_of_runes (runes tail)"
    by (auto simp: insertChar_def split: sum.splits)
  from slice_to_Inr [OF f] have "length front = nat pos" "0 \<le> pos" by auto
  moreover have "length front \<le> length (string_of_runes front)" by (rule length_string_of_runes)
  moreover have "1 \<le> length (encoderune r)"
    using encoderune_not_Nil [of r] by (cases "encoderune r") simp_all
  ultimately show ?thesis unfolding s' by simp
qed

lemma removeChar_length:
  assumes "removeChar s pos = Inr s'"
  shows "0 \<le> pos \<and> pos \<le> int (length s')"
proof -
  from assms obtain front tail where f: "slice_to (runes s) pos = Inr front"
    and s': "s' = string_of_runes front @ string_of_runes tail"
    by (auto simp: removeChar_def split: sum.splits)
  from slice_to_Inr [OF f] have "length front = nat pos" "0 \<le> pos" by auto
  moreover have "length front \<le> length (string_of_runes front)" by (rule length_string_of_runes)
  ultimately show ?thesis unfolding s' by simp
qed

lemma fontStringIndex_loop_range:
  "fontStringIndex_loop s f x start end' = Inr (flag, p) \<Longrightarrow>
   0 \<le> p \<and> p \<le> int (length (runes s))"
proof (induction s f x start end' rule: fontStringIndex_loop.induct)
  case (1 s f x start end')
  define q where "q = start + (end' - start) sdiv 2"
  from "1.prems" obtain sub where sl: "slice_to (runes s) q = Inr sub"
    by (subst (asm) fontStringIndex_loop.simps) (auto simp: Let_def q_def split: sum.splits)
  define a where "a = fontAdvance (string_of_runes sub) f"
  have q: "0 \<le> q" "q \<le> int (length (runes s))" using slice_to_Inr [OF sl] by simp_all
  have unfold: "fontStringIndex_loop s f x start end' =
      (if x - a = 0 then Inr (True, q)
       else if x - a > 0 then
         (if q = start then Inr (False, q) else fontStringIndex_loop s f x q end')
       else (if end' = q then Inr (False, q) else fontStringIndex_loop s f x start q))"
    by (subst fontStringIndex_loop.simps) (simp add: Let_def q_def [symmetric] sl a_def)
  consider (here) "fontStringIndex_loop s f x start end' = Inr (True, q)
                   \<or> fontStringIndex_loop s f x start end' = Inr (False, q)"
    | (up) "\<not> x - a = 0" "x - a > 0" "q \<noteq> start"
        "fontStringIndex_loop s f x start end' = fontStringIndex_loop s f x q end'"
    | (down) "\<not> x - a = 0" "\<not> x - a > 0" "end' \<noteq> q"
        "fontStringIndex_loop s f x start end' = fontStringIndex_loop s f x start q"
    using unfold by (auto split: if_splits)
  then show ?case
  proof cases
    case here
    with "1.prems" q show ?thesis by auto
  next
    case up
    from "1.IH"(1) [OF q_def sl a_def up(1,2,3)] "1.prems" up(4) show ?thesis by simp
  next
    case down
    from "1.IH"(2) [OF q_def sl a_def down(1,2,3)] "1.prems" down(4) show ?thesis by simp
  qed
qed

lemma fontStringIndex_range:
  assumes "fontStringIndex s f x = Inr i"
  shows "0 \<le> i \<and> i \<le> int (length (runes s))"
proof -
  from assms obtain flag p where loop: "fontStringIndex_loop s f x 0 (int (length s)) = Inr (flag, p)"
    by (auto simp: fontStringIndex_def split: sum.splits)
  note r = fontStringIndex_loop_range [OF loop]
  show ?thesis
  proof (cases "flag \<or> length s = 0")
    case True
    then have "i = p" using assms loop by (auto simp: fontStringIndex_def split: bool.splits)
    with r show ?thesis by simp
  next
    case False
    with assms loop obtain sub2 where "slice_to (runes s) (p + 1) = Inr sub2" "i = p + 1 \<or> i = p"
      by (auto simp: fontStringIndex_def Let_def split: sum.splits if_splits bool.splits)
    with slice_to_Inr [of "runes s" "p + 1" sub2] r show ?thesis by auto
  qed
qed

lemma same_layout_refl [simp]: "same_layout t t"
  by (simp add: same_layout_def)

lemma same_layout_state [simp]: "same_layout (t\<lparr>state := st\<rparr>) t' = same_layout t t'"
  "same_layout t (t'\<lparr>state := st\<rparr>) = same_layout t t'"
  by (simp_all add: same_layout_def)

lemma cursor_in_text_state [simp]: "cursor_in_text (t\<lparr>state := st\<rparr>) = cursor_in_text t"
  by (simp add: cursor_in_text_def)

lemma doInsert_cursor:
  assumes "doInsert c t = Inr t'" "cursor_in_text t"
  shows "cursor_in_text t' \<and> same_layout t t'"
proof (cases "t' = t")
  case True
  with assms show ?thesis by simp
next
  case False
  with assms(1) obtain s where s: "insertChar (InputText t) c (cursorPosition t) = Inr s"
    and t': "t' = t\<lparr>InputText := s, cursorPosition := cursorPosition t + 1\<rparr>"
    by (auto simp: doInsert_def split: sum.splits option.splits if_splits)
  from insertChar_length [OF s] assms(2) show ?thesis
    by (simp add: t' cursor_in_text_def same_layout_def len_def)
qed

lemma doGoXY_cursor:
  assumes "doGoXY x y t = Inr t'" "cursor_in_text t"
  shows "cursor_in_text t' \<and> same_layout t t'"
proof (cases "t' = t")
  case True
  with assms show ?thesis by simp
next
  case False
  with assms(1) obtain i x' where i: "fontStringIndex (InputText t) (face t) x' = Inr i"
    and t': "t' = t\<lparr>cursorPosition := i\<rparr>"
    by (auto simp: doGoXY_def Let_def split: sum.splits if_splits)
  from fontStringIndex_range [OF i] length_runes_le [of "InputText t"] show ?thesis
    by (simp add: t' cursor_in_text_def same_layout_def len_def)
qed

lemma commandToFunc_cursor:
  assumes "commandToFunc cmd t = Inr t'" "cursor_in_text t"
  shows "cursor_in_text t' \<and> same_layout t t'"
proof (cases cmd)
  case textInputGoLeft
  with assms show ?thesis
    by (auto simp: doGoLeft_def cursor_in_text_def same_layout_def split: if_splits)
next
  case textInputGoRight
  with assms show ?thesis
    by (auto simp: doGoRight_def cursor_in_text_def same_layout_def split: if_splits)
next
  case textInputGoStart
  with assms show ?thesis
    by (auto simp: doGoStart_def cursor_in_text_def same_layout_def len_def)
next
  case textInputGoEnd
  with assms show ?thesis
    by (auto simp: doGoEnd_def cursor_in_text_def same_layout_def len_def)
next
  case textInputBackspace
  show ?thesis
  proof (cases "t' = t")
    case True
    with assms show ?thesis by simp
  next
    case False
    with assms(1) textInputBackspace obtain s
      where s: "removeChar (InputText t) (cursorPosition t - 1) = Inr s"
        and t': "t' = t\<lparr>InputText := s, cursorPosition := cursorPosition t - 1\<rparr>"
      by (auto simp: doBackspace_def split: sum.splits if_splits)
    from removeChar_length [OF s] show ?thesis
      by (simp add: t' cursor_in_text_def same_layout_def len_def)
  qed
next
  case textInputDelete
  show ?thesis
  proof (cases "t' = t")
    case True
    with assms show ?thesis by simp
  next
    case False
    with assms(1) textInputDelete obtain s
      where s: "removeChar (InputText t) (cursorPosition t) = Inr s"
        and t': "t' = t\<lparr>InputText := s\<rparr>"
      by (auto simp: doDelete_def split: sum.splits if_splits)
    from removeChar_length [OF s] show ?thesis
      by (simp add: t' cursor_in_text_def same_layout_def len_def)
  qed
qed

lemma same_layout_trans: "same_layout a b \<Longrightarrow> same_layout b c \<Longrightarrow> same_layout a c"
  by (simp add: same_layout_def)

lemma call_state_cursor:
  assumes "call_state st inp t = Inr (t1, st1, rerun, a)" "cursor_in_text t"
  shows "cursor_in_text t1 \<and> same_layout t t1"
proof (cases st)
  case (IdleState b)
  show ?thesis
  proof (cases "t1 = t")
    case True
    with assms show ?thesis by simp
  next
    case False
    with assms(1) IdleState
    have "doGoXY (fst (CursorPosition inp)) (snd (CursorPosition inp)) t = Inr t1"
      by (auto simp: idleState_def Let_def split: list.splits option.splits if_splits sum.splits)
    from doGoXY_cursor [OF this assms(2)] show ?thesis .
  qed
next
  case (CharInputState c)
  show ?thesis
  proof (cases "t1 = t")
    case True
    with assms show ?thesis by simp
  next
    case False
    with assms(1) CharInputState have "doInsert c t = Inr t1"
      by (auto simp: charInputState_def split: if_splits sum.splits)
    from doInsert_cursor [OF this assms(2)] show ?thesis .
  qed
next
  case (CommandState cmd key delay timer)
  show ?thesis
  proof (cases "t1 = t")
    case True
    with assms show ?thesis by simp
  next
    case False
    with assms(1) CommandState have "commandToFunc cmd t = Inr t1"
      by (auto simp: commandState_def split: if_splits sum.splits option.splits)
    from commandToFunc_cursor [OF this assms(2)] show ?thesis .
  qed
qed

lemma run_states_cursor:
  "run_states inp t = Inr (t', acts) \<Longrightarrow> cursor_in_text t \<Longrightarrow>
   cursor_in_text t' \<and> same_layout t t'"
proof (induction inp t arbitrary: t' acts rule: run_states.induct)
  case (1 inp t)
  from "1.prems"(1) obtain t1 st1 rerun a1
    where call: "call_state (state t) inp t = Inr (t1, st1, rerun, a1)"
    by (subst (asm) run_states.simps) (auto split: sum.splits)
  note c1 = call_state_cursor [OF call "1.prems"(2)]
  show ?case
  proof (cases rerun)
    case True
    from "1.prems"(1) call True obtain acts'
      where rec: "run_states inp (t1\<lparr>state := st1\<rparr>) = Inr (t', acts')"
      by (subst (asm) run_states.simps) (auto split: sum.splits)
    have "cursor_in_text (t1\<lparr>state := st1\<rparr>)" using c1 by simp
    from "1.IH" [OF call refl refl refl True rec this] c1 show ?thesis
      using same_layout_trans [of t t1 t'] by simp
  next
    case False
    from "1.prems"(1) call False have "t' = t1\<lparr>state := st1\<rparr>"
      by (subst (asm) run_states.simps) simp
    with c1 show ?thesis by simp
  qed
qed

lemma Render_cursor:
  assumes R: "Render inp t = Inr (t', acts, textLoc, caretLoc)" and pos: "0 \<le> cursorPosition t"
  obtains t2 where "run_states inp (clamp_cursor t) = Inr (t2, acts)"
    and "drawTextAndCaret t2 = Inr (t', textLoc, caretLoc)"
    and "cursor_in_text t2" and "same_layout t t2"
proof -
  from R obtain t2 where run: "run_states inp (clamp_cursor t) = Inr (t2, acts)"
    and draw: "drawTextAndCaret t2 = Inr (t', textLoc, caretLoc)"
    by (rule Render_run_states)
  have c: "cursor_in_text (clamp_cursor t)" "same_layout t (clamp_cursor t)"
    using pos by (auto simp: clamp_cursor_def cursor_in_text_def same_layout_def len_def)
  from run_states_cursor [OF run c(1)] c(2) have "cursor_in_text t2" "same_layout t t2"
    using same_layout_trans by blast+
  with run draw that show ?thesis by blast
qed

lemma Render_cursor_in_text:
  assumes "Render inp t = Inr (t', acts, textLoc, caretLoc)" and "0 \<le> cursorPosition t"
  shows "0 \<le> cursorPosition t' \<and> cursorPosition t' \<le> len (InputText t')"
proof -
  from assms obtain t2 where draw: "drawTextAndCaret t2 = Inr (t', textLoc, caretLoc)"
    and c: "cursor_in_text t2"
    by (rule Render_cursor)
  from drawTextAndCaret_frame [OF draw] c show ?thesis
    by (simp add: cursor_in_text_def)
qed

text \<open>The two corrections of the scroll offset, for a cursor inside the text.\<close>

lemma drawTextAndCaret_caret_in_view:
  assumes cur: "0 \<le> cursorPosition t" "cursorPosition t \<le> len (InputText t)"
    and cw: "0 \<le> caret_Width t"
    and rect: "X (rMin (widget_Rect t)) + Left (padding t) \<le> X (rMax (widget_Rect t)) - Right (padding t)"
  shows "\<exists>t' textLoc caretLoc.
           drawTextAndCaret t = Inr (t', textLoc, caretLoc)
           \<and> X (rMin caretLoc) = X (rMin (widget_Rect t)) + Left (padding t) + scrollOffset t'
                + fontAdvance (take (nat (cursorPosition t)) (InputText t)) (face t)
           \<and> X (rMin (widget_Rect t)) + Left (padding t) \<le> X (rMin caretLoc)
           \<and> X (rMin caretLoc) \<le> X (rMax (widget_Rect t)) - Right (padding t)
           \<and> (X (rMax (widget_Rect t)) - X (rMin (widget_Rect t)) = 100
                \<and> Left (padding t) = 5 \<and> Right (padding t) = 5
                \<and> fontAdvance (take (nat (cursorPosition t)) (InputText t)) (face t) = 200
                \<and> caret_Width t \<le> 90
                \<and> X (rMax (widget_Rect t))
                    < X (rMin (widget_Rect t)) + Left (padding t) + scrollOffset t + 200
                      + caret_Width t + Right (padding t)
              \<longrightarrow> X (rMin caretLoc) + caret_Width t + Right (padding t) = X (rMax (widget_Rect t)))"
proof -
  define cx where "cx = fontAdvance (take (nat (cursorPosition t)) (InputText t)) (face t)"
  define dx where "dx = X (rMin (widget_Rect t)) + Left (padding t) + scrollOffset t + cx
                        + caret_Width t + Right (padding t) - X (rMax (widget_Rect t))"
  define so1 where "so1 = (if dx > 0 then scrollOffset t - dx else scrollOffset t)"
  define so2 where "so2 = (if so1 + cx < 0 then - cx else so1)"
  define x0 where "x0 = X (rMin (widget_Rect t)) + Left (padding t) + so2"
  define y0 where "y0 = Y (rMin (widget_Rect t)) + Top (padding t)"
  define x1 where "x1 = X (rMax (widget_Rect t)) + Left (padding t) + so2"
  define y1 where "y1 = Y (rMax (widget_Rect t)) + Top (padding t)"
  have eq: "drawTextAndCaret t =
      Inr (t\<lparr>scrollOffset := so2\<rparr>,
           \<lparr>rMin = \<lparr>X = x0, Y = y0\<rparr>, rMax = \<lparr>X = x1, Y = y1\<rparr>\<rparr>,
           \<lparr>rMin = \<lparr>X = x0 + cx, Y = y0\<rparr>, rMax = \<lparr>X = x1 + cx, Y = y1\<rparr>\<rparr>)"
    unfolding drawTextAndCaret_eq [OF cur] cx_def dx_def so1_def so2_def x0_def y0_def x1_def y1_def
    by (simp only: Let_def)
  have left: "X (rMin (widget_Rect t)) + Left (padding t) \<le> x0 + cx"
    unfolding x0_def so2_def by simp
  have right: "x0 + cx \<le> X (rMax (widget_Rect t)) - Right (padding t)"
    using cw rect unfolding x0_def so2_def so1_def dx_def by (simp split: if_splits)
  have scen: "X (rMax (widget_Rect t)) - X (rMin (widget_Rect t)) = 100
                \<and> Left (padding t) = 5 \<and> Right (padding t) = 5
                \<and> cx = 200 \<and> caret_Width t \<le> 90
                \<and> X (rMax (widget_Rect t))
                    < X (rMin (widget_Rect t)) + Left (padding t) + scrollOffset t + 200
                      + caret_Width t + Right (padding t)
              \<longrightarrow> x0 + cx + caret_Width t + Right (padding t) = X (rMax (widget_Rect t))"
    unfolding x0_def so2_def so1_def dx_def by (simp split: if_splits)
  show ?thesis
    unfolding eq using left right scen
    by (simp add: cx_def [symmetric] x0_def)
qed

section \<open>Insertion\<close>

text \<open>
  Claim C1 (insertion splices at the code-point position, also in text with multi-byte
  code points).  The code cuts the tail of the text at the byte offset \<open>pos\<close>.  In the
  text \<open>e-acute, a\<close> (bytes \<open>C3 A9 61\<close>) with the cursor after the first code point,
  inserting \<open>x\<close> gives \<open>e-acute, x, U+FFFD, a\<close>: the tail starts inside the
  two-byte code point.  The splice the claim describes gives \<open>e-acute, x, a\<close>.
  On text of single-byte code points the code does splice at the code-point position
  (lemma \<open>insertChar_ascii\<close>).
\<close>

theorem insertChar_multibyte_tail:
  "insertChar [0xC3, 0xA9, 0x61] 0x78 1 = Inr [0xC3, 0xA9, 0x78, 0xEF, 0xBF, 0xBD, 0x61]
   \<and> runes [0xC3, 0xA9, 0x78, 0xEF, 0xBF, 0xBD, 0x61] = [0xE9, 0x78, 0xFFFD, 0x61]
   \<and> take 1 (runes [0xC3, 0xA9, 0x61]) @ [0x78] @ drop 1 (runes [0xC3, 0xA9, 0x61])
       = [0xE9, 0x78, 0x61]"
  by (simp add: eval_defs)

section \<open>The validation gate\<close>

text \<open>
  Claim C2.  With a validation function set and the cursor within the code points of the
  text:
  \<^item> \<^verbatim>\<open>doInsert\<close> builds the candidate text and commits it, advancing the cursor by one,
    exactly when the validator accepts it; otherwise the widget is unchanged;
  \<^item> \<^verbatim>\<open>doBackspace\<close> with the cursor after the start and \<^verbatim>\<open>doDelete\<close> with the
    cursor before the end remove their code point whatever the validator is;
  \<^item> when the validator rejects every text of more than \<open>N\<close> code points and the text
    has \<open>N\<close> code points, \<^verbatim>\<open>doInsert\<close> leaves the widget unchanged.
\<close>

theorem validation_gate:
  assumes vf: "validationFunc t = Some v"
    and cur: "0 \<le> cursorPosition t" "cursorPosition t \<le> int (length (runes (InputText t)))"
  shows "(\<exists>s. insertChar (InputText t) c (cursorPosition t) = Inr s
            \<and> doInsert c t =
                (if v s then Inr (t\<lparr>InputText := s, cursorPosition := cursorPosition t + 1\<rparr>)
                 else Inr t))
    \<and> (0 < cursorPosition t \<longrightarrow>
          doBackspace t =
            Inr (t\<lparr>InputText :=
                     string_of_runes
                       (take (nat (cursorPosition t - 1)) (runes (InputText t))
                        @ drop (nat (cursorPosition t)) (runes (InputText t))),
                   cursorPosition := cursorPosition t - 1\<rparr>))
    \<and> (cursorPosition t < int (length (runes (InputText t))) \<longrightarrow>
          doDelete t =
            Inr (t\<lparr>InputText :=
                     string_of_runes
                       (take (nat (cursorPosition t)) (runes (InputText t))
                        @ drop (nat (cursorPosition t) + 1) (runes (InputText t)))\<rparr>))
    \<and> ((\<forall>s. N < length (runes s) \<longrightarrow> \<not> v s) \<and> length (runes (InputText t)) = N \<longrightarrow>
          doInsert c t = Inr t)"
proof -
  obtain s where s: "insertChar (InputText t) c (cursorPosition t) = Inr s"
    using insertChar_in_bounds [OF cur] by blast
  have ins: "doInsert c t =
      (if v s then Inr (t\<lparr>InputText := s, cursorPosition := cursorPosition t + 1\<rparr>) else Inr t)"
    by (simp add: doInsert_def s vf)
  have bksp: "doBackspace t =
            Inr (t\<lparr>InputText :=
                     string_of_runes
                       (take (nat (cursorPosition t - 1)) (runes (InputText t))
                        @ drop (nat (cursorPosition t)) (runes (InputText t))),
                   cursorPosition := cursorPosition t - 1\<rparr>)"
    if pos: "0 < cursorPosition t"
  proof -
    have b: "0 \<le> cursorPosition t - 1" "cursorPosition t - 1 < int (length (runes (InputText t)))"
      using pos cur by simp_all
    have n: "Suc (nat (cursorPosition t - 1)) = nat (cursorPosition t)" using pos by simp
    show ?thesis
      using pos by (simp add: doBackspace_def removeChar_in_bounds [OF b] n)
  qed
  have forward: "doDelete t =
            Inr (t\<lparr>InputText :=
                     string_of_runes
                       (take (nat (cursorPosition t)) (runes (InputText t))
                        @ drop (nat (cursorPosition t) + 1) (runes (InputText t)))\<rparr>)"
    if lt: "cursorPosition t < int (length (runes (InputText t)))"
  proof -
    have "cursorPosition t < len (InputText t)"
      using lt length_runes_le [of "InputText t"] by (simp add: len_def)
    then show ?thesis
      by (simp add: doDelete_def removeChar_in_bounds [OF cur(1) lt])
  qed
  have full: "doInsert c t = Inr t"
    if rej: "\<forall>s. N < length (runes s) \<longrightarrow> \<not> v s" and n: "length (runes (InputText t)) = N"
  proof -
    have "N < length (runes s)"
      using length_runes_insertChar [OF cur s] n by simp
    with rej have "\<not> v s" by blast
    then show ?thesis by (simp add: ins)
  qed
  from s ins bksp forward full show ?thesis by blast
qed

theorem validation_gate_witness:
  "doInsert 0x63 ((plain_widget [0x61, 0x62] 2)\<lparr>validationFunc := Some (\<lambda>s. length (runes s) \<le> 2)\<rparr>)
     = Inr ((plain_widget [0x61, 0x62] 2)\<lparr>validationFunc := Some (\<lambda>s. length (runes s) \<le> 2)\<rparr>)
   \<and> doBackspace ((plain_widget [0x61, 0x62] 2)\<lparr>validationFunc := Some (\<lambda>s. length (runes s) \<le> 2)\<rparr>)
     = Inr ((plain_widget [0x61] 1)\<lparr>validationFunc := Some (\<lambda>s. length (runes s) \<le> 2)\<rparr>)"
proof -
  define v :: "gostring \<Rightarrow> bool" where "v = (\<lambda>s. length (runes s) \<le> 2)"
  define w where "w = (plain_widget [0x61, 0x62] 2)\<lparr>validationFunc := Some v\<rparr>"
  have r: "runes [0x61, 0x62 :: byte] = [0x61, 0x62]" by (simp add: runes.simps)
  have h: "validationFunc w = Some v" "0 \<le> cursorPosition w"
    "cursorPosition w \<le> int (length (runes (InputText w)))"
    by (simp_all add: w_def plain_widget_def r)
  have rej: "\<forall>s. 2 < length (runes s) \<longrightarrow> \<not> v s" by (simp add: v_def)
  have n: "length (runes (InputText w)) = 2" "0 < cursorPosition w" "cursorPosition w = 2"
    "InputText w = [0x61, 0x62]"
    by (simp_all add: w_def plain_widget_def r)
  have e: "string_of_runes [0x61] = [0x61]"
    by (simp add: string_of_runes_def encoderune_def)
  from validation_gate [OF h, where c = "0x63" and N = 2] rej n
  have "doInsert 0x63 w = Inr w"
    and "doBackspace w = Inr (w\<lparr>InputText := [0x61], cursorPosition := 1\<rparr>)"
    by (simp_all add: r e)
  then show ?thesis
    unfolding w_def v_def by (simp add: plain_widget_def)
qed

section \<open>The cursor range\<close>

text \<open>
  Claim C3 (the cursor stays within the number of code points of the text).  The code
  bounds the cursor by \<^verbatim>\<open>len(t.InputText)\<close>, the number of bytes.  In a new widget,
  typing \<open>e-acute\<close> in one frame and holding End in the next leaves the text
  \<open>e-acute\<close> (two bytes, one code point) with the cursor at 2: \<^verbatim>\<open>doGoEnd\<close> puts it
  there, and the clamp at the start of \<^verbatim>\<open>Render\<close> would leave it there.  What every
  frame does keep is the cursor within the bytes of the text (lemma
  \<open>Render_cursor_in_text\<close>).
\<close>

theorem cursor_beyond_code_points:
  "map_sum id (\<lambda>(t, log). (InputText t, cursorPosition t, length (runes (InputText t)), log))
     (Render_all [chars_typed [0xE9] 0, keys_held [KeyEnd] declared_order (16 * Millisecond)]
        (plain_widget [] 0))
   = Inr ([0xC3, 0xA9], 2, 1, [[Insert 0xE9], [Command textInputGoEnd]])"
  by code_simp

text \<open>
  With the cursor at 1, the end of that text in code points, \<^verbatim>\<open>doDelete\<close> still finds
  \<^verbatim>\<open>t.cursorPosition < len(t.InputText)\<close> and slices the runes from 2.
\<close>

lemma doDelete_at_end_of_multibyte:
  "doDelete (plain_widget [0xC3, 0xA9] 1) = Inl (SliceBounds 2 1)"
  by (simp add: doDelete_def eval_defs)

section \<open>Index lookup\<close>

text \<open>
  Claim C4 (for every text the lookup returns the index in \<open>[0, len(text)]\<close> of the
  nearest boundary).  The search runs up to \<^verbatim>\<open>len(s)\<close>, the number of bytes, and
  slices the runes of the text with it.  On the text \<open>e-acute, e-acute\<close> (four bytes,
  two code points) with ten pixels per code point and the offset 1000, the search asks
  for the first three runes of two.  On text of single-byte code points the result is
  the index of a nearest boundary, and the smaller index on a tie (lemma
  \<open>fontStringIndex_ascii_nearest\<close>).
\<close>

theorem fontStringIndex_multibyte_search:
  "fontStringIndex [0xC3, 0xA9, 0xC3, 0xA9] (fixedAdvance 10) 1000 = Inl (SliceBounds 3 2)"
  by (simp add: eval_defs)

text \<open>
  Claim C10 (the indices \<open>p\<close> and \<open>p + 1\<close> that \<^verbatim>\<open>fontStringIndex\<close> slices with never
  exceed the number of code points).  The loop always ends: the distance between
  \<open>start\<close> and \<open>end\<close> shrinks with every round, which is the termination proof of
  \<open>fontStringIndex_loop\<close>.  The bound fails: on the text \<open>e-acute\<close> (two bytes,
  one code point) with the offset 1000 the search stops at \<open>p = 1\<close>, and the
  comparison after it slices the runes at \<open>p + 1 = 2\<close>.
\<close>

theorem fontStringIndex_multibyte_bounds:
  "fontStringIndex [0xC3, 0xA9] (fixedAdvance 10) 1000 = Inl (SliceBounds 2 1)
   \<and> length (runes [0xC3, 0xA9]) = 1"
  by (simp add: eval_defs)

section \<open>Click positioning\<close>

text \<open>
  Claim C5 as stated (text \<open>ab\<close>, ten pixels per glyph, content rectangle starting at
  0, no scrolling: a click at \<open>x = 15\<close> sets the cursor to 2) fails: the offset 15 is
  as far from the boundary at 10 as from the boundary at 20, and on a tie the code keeps
  the smaller index.
\<close>

theorem click_at_15_counterexample:
  "map_sum id cursorPosition (doGoXY 15 5 (plain_widget [0x61, 0x62] 0)) = Inr 1
   \<and> map_sum id cursorPosition (doGoXY 15 5 (plain_widget [0x61, 0x62] 0)) \<noteq> Inr 2"
  by (simp add: doGoXY_def eval_defs)

text \<open>
  Claim C5, amended: for the text \<open>ab\<close> with advances 10 and 10, the content rectangle
  starting at \<open>x = 0\<close> and no scrolling, a click at \<open>x = 5\<close> sets the cursor to 0 and a
  click at \<open>x = 15\<close> sets the cursor to 1.
\<close>

theorem click_positioning_ab:
  assumes "InputText t = [0x61, 0x62]"
    and "face t [] = 0" and "face t [0x61] = 10" and "face t [0x61, 0x62] = 20"
    and "scrollOffset t = 0"
    and "X (rMin (Insets_Apply (padding t) (widget_Rect t))) = 0"
    and "15 \<le> X (rMax (Insets_Apply (padding t) (widget_Rect t)))"
    and "Point_In \<lparr>X = 5, Y = y\<rparr> (widget_Rect t)"
    and "Point_In \<lparr>X = 15, Y = y\<rparr> (widget_Rect t)"
  shows "doGoXY 5 y t = Inr (t\<lparr>cursorPosition := 0\<rparr>)
         \<and> doGoXY 15 y t = Inr (t\<lparr>cursorPosition := 1\<rparr>)"
proof -
  have r: "runes [0x61, 0x62 :: byte] = [0x61, 0x62]"
    by (simp add: runes.simps)
  have e: "encoderune 0x61 = [0x61]" "encoderune 0x62 = [0x62]"
    by (simp_all add: encoderune_def)
  have i5: "fontStringIndex [0x61, 0x62] (face t) 5 = Inr 0"
    using assms(2-4)
    by (simp add: fontStringIndex_def fontStringIndex_loop.simps slice_to_def r e Let_def
        string_of_runes_def fontAdvance_def signed_divide_int_def)
  have i15: "fontStringIndex [0x61, 0x62] (face t) 15 = Inr 1"
    using assms(2-4)
    by (simp add: fontStringIndex_def fontStringIndex_loop.simps slice_to_def r e Let_def
        string_of_runes_def fontAdvance_def signed_divide_int_def)
  show ?thesis
    using assms(1,5-9) i5 i15 by (simp add: doGoXY_def Let_def)
qed

theorem click_positioning_ab_witness:
  "doGoXY 5 5 (plain_widget [0x61, 0x62] 0) = Inr (plain_widget [0x61, 0x62] 0)
   \<and> doGoXY 15 5 (plain_widget [0x61, 0x62] 0) = Inr (plain_widget [0x61, 0x62] 1)"
proof -
  define w where "w = plain_widget [0x61, 0x62] 0"
  have h: "InputText w = [0x61, 0x62]"
    "face w [] = 0" "face w [0x61] = 10" "face w [0x61, 0x62] = 20"
    "scrollOffset w = 0"
    "X (rMin (Insets_Apply (padding w) (widget_Rect w))) = 0"
    "15 \<le> X (rMax (Insets_Apply (padding w) (widget_Rect w)))"
    "Point_In \<lparr>X = 5, Y = 5\<rparr> (widget_Rect w)"
    "Point_In \<lparr>X = 15, Y = 5\<rparr> (widget_Rect w)"
    by (simp_all add: w_def plain_widget_def NewTextInput_def fixedAdvance_def runes.simps
        Insets_Apply_def Point_In_def)
  from click_positioning_ab [OF h] show ?thesis
    by (simp add: w_def plain_widget_def)
qed

section \<open>Several keys held\<close>

text \<open>
  Claim C9 (with several control keys held, two evaluations from the same state and the
  same input select the same command).  The code takes the first held key that the
  iteration over the map \<^verbatim>\<open>textInputKeyToCommand\<close> visits, and the order of a map
  iteration differs from one iteration to the next.  With Left and Right held, the same
  widget and the same input run the command of whichever key the iteration visits first.
\<close>

theorem held_keys_order_dependent:
  "map_sum id (\<lambda>(t, acts, locs). acts)
     (Render (keys_held [KeyLeft, KeyRight] declared_order 0) (plain_widget [0x61, 0x62] 1))
   = Inr [Command textInputGoLeft]
   \<and> map_sum id (\<lambda>(t, acts, locs). acts)
     (Render (keys_held [KeyLeft, KeyRight] (rev declared_order) 0) (plain_widget [0x61, 0x62] 1))
   = Inr [Command textInputGoRight]"
  by code_simp

section \<open>Key repeat\<close>




text \<open>
  The scenario of the spec: Backspace held on \<open>hello\<close> with the cursor at the end,
  frames at 0, 100, 299, 300, 320 and 335 ms.  The text becomes \<open>hell\<close> at 0,
  \<open>hel\<close> at 300 and \<open>he\<close> at 335, and no other frame changes it.
\<close>

lemma backspace_held_scenario:
  "map_sum id (\<lambda>(t, log). (InputText t, cursorPosition t, log))
     (Render_all
        (map (\<lambda>ms. keys_held [KeyBackspace] declared_order (ms * Millisecond))
           [0, 100, 299, 300, 320, 335])
        (plain_widget [0x68, 0x65, 0x6C, 0x6C, 0x6F] 5))
   = Inr ([0x68, 0x65], 2,
          [[Command textInputBackspace], [], [], [Command textInputBackspace], [],
           [Command textInputBackspace]])"
  by code_simp

section \<open>Releasing the key\<close>

text \<open>
  Claim C7.  When the key of the current command state is not pressed in a call of
  \<^verbatim>\<open>Render\<close>, the command state returns Idle with the request to run it in the same
  call and executes nothing, whatever its timer says; the call does not execute the
  command of that key, and it ends in Idle or in the command state of another key that
  is held.
\<close>

theorem released_key_goes_idle:
  assumes st: "state t = CommandState (textInputKeyToCommand key) key delay timer"
    and rel: "\<not> KeyPressed inp key"
  shows "commandState (textInputKeyToCommand key) key delay timer inp t
           = Inr (t, IdleState True, True, [])
         \<and> (\<forall>t' acts textLoc caretLoc.
               Render inp t = Inr (t', acts, textLoc, caretLoc) \<longrightarrow>
               Command (textInputKeyToCommand key) \<notin> set acts
               \<and> (state t' = IdleState True
                  \<or> (\<exists>k. k \<noteq> key \<and> KeyPressed inp k
                       \<and> state t' = CommandState (textInputKeyToCommand k) k (repeatDelay t)
                                      (Some (now inp + repeatDelay t)))))"
proof -
  have first: "commandState (textInputKeyToCommand key) key delay timer inp t
          = Inr (t, IdleState True, True, [])"
    using rel by (simp add: commandState_def)
  have "Command (textInputKeyToCommand key) \<notin> set acts
      \<and> (state t' = IdleState True
         \<or> (\<exists>k. k \<noteq> key \<and> KeyPressed inp k
              \<and> state t' = CommandState (textInputKeyToCommand k) k (repeatDelay t)
                             (Some (now inp + repeatDelay t))))"
    if R: "Render inp t = Inr (t', acts, textLoc, caretLoc)" for t' acts textLoc caretLoc
  proof -
  from R obtain t2 where run: "run_states inp (clamp_cursor t) = Inr (t2, acts)"
    and draw: "drawTextAndCaret t2 = Inr (t', textLoc, caretLoc)"
    by (rule Render_run_states)
  define tc where "tc = clamp_cursor t"
  have stc: "state tc = CommandState (textInputKeyToCommand key) key delay timer"
    using st clamp_cursor_frame [of t] by (simp add: tc_def)
  define ti where "ti = tc\<lparr>state := IdleState True\<rparr>"
  have sti: "state ti = IdleState True" by (simp add: ti_def)
  have runi: "run_states inp ti = Inr (t2, acts)"
    using run run_states_Command_released [OF stc rel] by (simp add: tc_def ti_def)
  have cfg: "repeatDelay ti = repeatDelay t"
    using clamp_cursor_frame [of t] by (simp add: ti_def tc_def)
  have s2: "state t' = state t2"
    using drawTextAndCaret_frame [OF draw] by simp
  from outcome_Idle [OF sti runi]
  consider (idle) "state t2 = IdleState True"
      "acts = [] \<or> (\<exists>c. acts = [Insert c]) \<or> (\<exists>x y. acts = [Click x y])"
    | (cmd) k where "KeyPressed inp k" "acts = [Command (textInputKeyToCommand k)]"
      "state t2 = CommandState (textInputKeyToCommand k) k (repeatDelay ti)
                    (Some (now inp + repeatDelay ti))"
    by auto
  then show ?thesis
  proof cases
    case idle
    then show ?thesis using s2 by auto
  next
    case cmd
    have ne: "k \<noteq> key" using cmd(1) rel by auto
    then have "textInputKeyToCommand key \<noteq> textInputKeyToCommand k"
      using textInputKeyToCommand_inj by blast
    with cmd ne s2 cfg show ?thesis by auto
  qed
  qed
  with first show ?thesis by blast
qed

theorem released_key_goes_idle_witness:
  "commandState textInputBackspace KeyBackspace (300 * Millisecond) (Some (300 * Millisecond))
     (keys_held [] declared_order (400 * Millisecond))
     ((plain_widget [0x68, 0x65] 2)
        \<lparr>state := CommandState textInputBackspace KeyBackspace (300 * Millisecond)
                    (Some (300 * Millisecond))\<rparr>)
   = Inr ((plain_widget [0x68, 0x65] 2)
            \<lparr>state := CommandState textInputBackspace KeyBackspace (300 * Millisecond)
                        (Some (300 * Millisecond))\<rparr>, IdleState True, True, [])
   \<and> (\<exists>t' acts textLoc caretLoc.
         Render (keys_held [] declared_order (400 * Millisecond))
           ((plain_widget [0x68, 0x65] 2)
              \<lparr>state := CommandState textInputBackspace KeyBackspace (300 * Millisecond)
                          (Some (300 * Millisecond))\<rparr>)
         = Inr (t', acts, textLoc, caretLoc)
         \<and> Command textInputBackspace \<notin> set acts \<and> state t' = IdleState True)"
proof -
  define inp where "inp = keys_held [] declared_order (400 * Millisecond)"
  define w where "w = (plain_widget [0x68, 0x65] 2)
       \<lparr>state := CommandState textInputBackspace KeyBackspace (300 * Millisecond)
                   (Some (300 * Millisecond))\<rparr>"
  have "\<not> isl (Render (keys_held [] declared_order (400 * Millisecond))
        ((plain_widget [0x68, 0x65] 2)
           \<lparr>state := CommandState textInputBackspace KeyBackspace (300 * Millisecond)
                       (Some (300 * Millisecond))\<rparr>))"
    by code_simp
  then obtain t' acts textLoc caretLoc where R: "Render inp w = Inr (t', acts, textLoc, caretLoc)"
    unfolding inp_def w_def using not_isl_Inr4 by blast
  have st: "state w = CommandState (textInputKeyToCommand KeyBackspace) KeyBackspace
                        (300 * Millisecond) (Some (300 * Millisecond))"
    by (simp add: w_def)
  have rel: "\<not> KeyPressed inp KeyBackspace" "\<And>k. \<not> KeyPressed inp k"
    by (simp_all add: inp_def keys_held_def)
  from released_key_goes_idle [OF st rel(1)] R rel(2) show ?thesis
    unfolding inp_def [symmetric] w_def [symmetric] by auto
qed

section \<open>Keeping the caret in view\<close>

text \<open>
  Claim C8.  In every call of \<^verbatim>\<open>Render\<close> that returns, for a widget whose cursor is
  not negative, whose caret has a non-negative width and whose rectangle is at least as
  wide as its horizontal padding, the caret is placed at the content rectangle's left
  edge plus the new scroll offset plus the advance of the text before the cursor, and
  that position lies within the content rectangle.  In a rectangle 100 pixels wide with
  5 pixels of padding on each side, with the caret 200 pixels into the text and reaching
  beyond the right edge before the scroll offset is corrected, and a caret that fits the
  content rectangle, the caret's right edge plus the right padding ends exactly on the
  right edge of the rectangle.
\<close>

theorem caret_kept_in_content_rect:
  assumes pos: "0 \<le> cursorPosition t" and cw: "0 \<le> caret_Width t"
    and rect: "X (rMin (widget_Rect t)) + Left (padding t) \<le> X (rMax (widget_Rect t)) - Right (padding t)"
    and R: "Render inp t = Inr (t', acts, textLoc, caretLoc)"
  shows "X (rMin caretLoc) = X (rMin (widget_Rect t)) + Left (padding t) + scrollOffset t'
                + fontAdvance (take (nat (cursorPosition t')) (InputText t')) (face t)
         \<and> X (rMin (widget_Rect t)) + Left (padding t) \<le> X (rMin caretLoc)
         \<and> X (rMin caretLoc) \<le> X (rMax (widget_Rect t)) - Right (padding t)
         \<and> (X (rMax (widget_Rect t)) - X (rMin (widget_Rect t)) = 100
              \<and> Left (padding t) = 5 \<and> Right (padding t) = 5
              \<and> fontAdvance (take (nat (cursorPosition t')) (InputText t')) (face t) = 200
              \<and> caret_Width t \<le> 90
              \<and> X (rMax (widget_Rect t))
                  < X (rMin (widget_Rect t)) + Left (padding t) + scrollOffset t + 200
                    + caret_Width t + Right (padding t)
            \<longrightarrow> X (rMin caretLoc) + caret_Width t + Right (padding t) = X (rMax (widget_Rect t)))"
proof -
  from R pos obtain t2 where draw: "drawTextAndCaret t2 = Inr (t', textLoc, caretLoc)"
    and c: "cursor_in_text t2" and l: "same_layout t t2"
    by (rule Render_cursor)
  have cur: "0 \<le> cursorPosition t2" "cursorPosition t2 \<le> len (InputText t2)"
    using c by (simp_all add: cursor_in_text_def)
  have lay: "scrollOffset t2 = scrollOffset t" "widget_Rect t2 = widget_Rect t"
    "padding t2 = padding t" "caret_Width t2 = caret_Width t" "face t2 = face t"
    using l by (simp_all add: same_layout_def)
  have cw2: "0 \<le> caret_Width t2" and rect2: "X (rMin (widget_Rect t2)) + Left (padding t2)
      \<le> X (rMax (widget_Rect t2)) - Right (padding t2)"
    using cw rect by (simp_all add: lay)
  from drawTextAndCaret_frame [OF draw]
  have same: "InputText t' = InputText t2" "cursorPosition t' = cursorPosition t2" by simp_all
  from drawTextAndCaret_caret_in_view [OF cur cw2 rect2]
  obtain t'' tl cl where d2: "drawTextAndCaret t2 = Inr (t'', tl, cl)"
    and P: "X (rMin cl) = X (rMin (widget_Rect t2)) + Left (padding t2) + scrollOffset t''
                + fontAdvance (take (nat (cursorPosition t2)) (InputText t2)) (face t2)
         \<and> X (rMin (widget_Rect t2)) + Left (padding t2) \<le> X (rMin cl)
         \<and> X (rMin cl) \<le> X (rMax (widget_Rect t2)) - Right (padding t2)
         \<and> (X (rMax (widget_Rect t2)) - X (rMin (widget_Rect t2)) = 100
              \<and> Left (padding t2) = 5 \<and> Right (padding t2) = 5
              \<and> fontAdvance (take (nat (cursorPosition t2)) (InputText t2)) (face t2) = 200
              \<and> caret_Width t2 \<le> 90
              \<and> X (rMax (widget_Rect t2))
                  < X (rMin (widget_Rect t2)) + Left (padding t2) + scrollOffset t2 + 200
                    + caret_Width t2 + Right (padding t2)
            \<longrightarrow> X (rMin cl) + caret_Width t2 + Right (padding t2) = X (rMax (widget_Rect t2)))"
    by blast
  from d2 draw have eq: "t'' = t'" "cl = caretLoc" by simp_all
  from P show ?thesis unfolding eq lay same .
qed

theorem caret_kept_in_content_rect_witness:
  "\<exists>t' acts textLoc caretLoc.
     Render (keys_held [] declared_order 0)
       ((NewTextInput \<lparr>Top = 5, Left = 5, Right = 5, Bottom = 5\<rparr> (fixedAdvance 100) None None
           \<lparr>rMin = \<lparr>X = 0, Y = 0\<rparr>, rMax = \<lparr>X = 100, Y = 20\<rparr>\<rparr> False 2)
        \<lparr>InputText := [0x61, 0x62], cursorPosition := 2\<rparr>)
     = Inr (t', acts, textLoc, caretLoc)
     \<and> scrollOffset t' = - 112 \<and> X (rMin caretLoc) = 93
     \<and> 5 \<le> X (rMin caretLoc) \<and> X (rMin caretLoc) \<le> 95
     \<and> X (rMin caretLoc) + 2 + 5 = 100"
proof -
  define inp where "inp = keys_held [] declared_order 0"
  define w where "w = (NewTextInput \<lparr>Top = 5, Left = 5, Right = 5, Bottom = 5\<rparr>
           (fixedAdvance 100) None None
           \<lparr>rMin = \<lparr>X = 0, Y = 0\<rparr>, rMax = \<lparr>X = 100, Y = 20\<rparr>\<rparr> False 2)
        \<lparr>InputText := [0x61, 0x62], cursorPosition := 2\<rparr>"
  have "\<not> isl (Render (keys_held [] declared_order 0)
       ((NewTextInput \<lparr>Top = 5, Left = 5, Right = 5, Bottom = 5\<rparr> (fixedAdvance 100) None None
           \<lparr>rMin = \<lparr>X = 0, Y = 0\<rparr>, rMax = \<lparr>X = 100, Y = 20\<rparr>\<rparr> False 2)
        \<lparr>InputText := [0x61, 0x62], cursorPosition := 2\<rparr>))"
    by code_simp
  then obtain t' acts textLoc caretLoc where R: "Render inp w = Inr (t', acts, textLoc, caretLoc)"
    unfolding inp_def w_def using not_isl_Inr4 by blast
  have h: "0 \<le> cursorPosition w" "0 \<le> caret_Width w"
    "X (rMin (widget_Rect w)) + Left (padding w) \<le> X (rMax (widget_Rect w)) - Right (padding w)"
    by (simp_all add: w_def NewTextInput_def)
  have idle: "state w = IdleState True" "InputChars inp = []"
    "find (KeyPressed inp) (rangeOrder inp) = None" "\<not> MouseButtonJustPressedLayer inp"
    by (simp_all add: w_def NewTextInput_def inp_def keys_held_def declared_order_def)
  have cl: "clamp_cursor w = w"
    by (simp add: clamp_cursor_def w_def NewTextInput_def len_def)
  from R obtain t2 where run: "run_states inp (clamp_cursor w) = Inr (t2, acts)"
    and draw: "drawTextAndCaret t2 = Inr (t', textLoc, caretLoc)"
    by (rule Render_run_states)
  have t2: "t2 = w\<lparr>state := IdleState True\<rparr>"
    using run run_states_Idle_rest [OF idle(1,2,3)] idle(4) unfolding cl by simp
  have same: "InputText t' = InputText w" "cursorPosition t' = cursorPosition w"
    using drawTextAndCaret_frame [OF draw] by (simp_all add: t2)
  have v: "fontAdvance (take (nat (cursorPosition w)) (InputText w)) (face w) = 200"
    "scrollOffset w = 0" "caret_Width w = 2" "Left (padding w) = 5" "Right (padding w) = 5"
    "X (rMin (widget_Rect w)) = 0" "X (rMax (widget_Rect w)) = 100"
    by (simp_all add: w_def NewTextInput_def fixedAdvance_def fontAdvance_def runes.simps)
  from caret_kept_in_content_rect [OF h R] R show ?thesis
    unfolding inp_def [symmetric] w_def [symmetric] same v by auto
qed

end
